theory Spec2Isabelle
  imports Main "HOL-Library.Word" "HOL-Library.Sublist"
begin

section \<open>Strings and numbers of the host language\<close>

text \<open>
  A string of the program is a sequence of 16-bit code units. The patterns of
  \<^verbatim>\<open>src/index.tsx\<close> carry the flag \<^verbatim>\<open>s\<close> and not the flag \<^verbatim>\<open>u\<close>, so they
  read the text one code unit at a time, as \<^verbatim>\<open>trim\<close> and \<^verbatim>\<open>split\<close> do.
  \<open>js\<close> writes an ASCII literal of the source as such a sequence.
\<close>

type_synonym code_unit = "16 word"
type_synonym jsstring = "code_unit list"

definition js :: "string \<Rightarrow> jsstring" where
  "js s = map (\<lambda>c. word_of_nat (of_char c)) s"

text \<open>
  \<^verbatim>\<open>String.prototype.trim\<close> removes the code units of the productions WhiteSpace
  and LineTerminator from both ends: TAB, LF, VT, FF, CR, SP, NBSP, U+1680,
  U+2000 to U+200A, U+2028, U+2029, U+202F, U+205F, U+3000 and U+FEFF.
\<close>

definition isWhiteSpace :: "code_unit \<Rightarrow> bool" where
  "isWhiteSpace c \<longleftrightarrow>
     c \<in> set [0x9, 0xA, 0xB, 0xC, 0xD, 0x20, 0xA0, 0x1680, 0x2028, 0x2029,
              0x202F, 0x205F, 0x3000, 0xFEFF]
     \<or> (0x2000 \<le> c \<and> c \<le> 0x200A)"

definition trimStart :: "jsstring \<Rightarrow> jsstring" where
  "trimStart s = dropWhile isWhiteSpace s"

definition trim :: "jsstring \<Rightarrow> jsstring" where
  "trim s = rev (dropWhile isWhiteSpace (rev (dropWhile isWhiteSpace s)))"

text \<open>\<^verbatim>\<open>\d\<close> without the flag \<^verbatim>\<open>u\<close> or \<^verbatim>\<open>i\<close> is the range 0 to 9.\<close>

definition isDigit :: "code_unit \<Rightarrow> bool" where
  "isDigit c \<longleftrightarrow> 0x30 \<le> c \<and> c \<le> 0x39"

text \<open>
  A Number that \<^verbatim>\<open>parseInt\<close> can return: an integer-valued double, an infinity
  or NaN. (The sign of zero is not kept.)
\<close>

datatype number = Finite int | PosInfinity | NegInfinity | NaN

text \<open>
  The Number value for a non-negative integer: rounding to the nearest double, ties to
  the even significand of 53 bits, and to infinity from \<open>2 ^ 1024\<close> on.
  \<open>mant_shift n\<close> is the number of low bits that do not fit the significand.
\<close>

function mant_shift :: "int \<Rightarrow> nat" where
  "mant_shift n = (if n < 2 ^ 53 then 0 else Suc (mant_shift (n div 2)))"
  by pat_completeness auto
termination
  by (relation "measure nat") auto

definition number_of_int :: "int \<Rightarrow> number" where
  "number_of_int n =
     (let e = mant_shift n;
          q = n div 2 ^ e;
          r = n mod 2 ^ e;
          q' = (if 2 ^ e < 2 * r \<or> (2 * r = 2 ^ e \<and> odd q) then q + 1 else q)
      in if 2 ^ 1024 \<le> q' * 2 ^ e then PosInfinity else Finite (q' * 2 ^ e))"

definition negate :: "number \<Rightarrow> number" where
  "negate x = (case x of Finite i \<Rightarrow> Finite (- i) | PosInfinity \<Rightarrow> NegInfinity
                 | NegInfinity \<Rightarrow> PosInfinity | NaN \<Rightarrow> NaN)"

definition isNaN :: "number \<Rightarrow> bool" where
  "isNaN x \<longleftrightarrow> x = NaN"

text \<open>The mathematical value of a run of decimal digits, most significant first.\<close>

definition digits_value :: "jsstring \<Rightarrow> int" where
  "digits_value Z = foldl (\<lambda>a c. 10 * a + uint (c - 0x30)) 0 Z"

text \<open>
  \<^verbatim>\<open>parseInt(string, 10)\<close>: leading white space is skipped, one sign is read,
  then the longest run of decimal digits; no digit gives NaN. With radix 10 no
  \<^verbatim>\<open>0x\<close> prefix is stripped. The digits are converted exactly and rounded once
  (an engine may read the digits after the twentieth as zeros; the results used
  below do not depend on them).
\<close>

definition parseInt :: "jsstring \<Rightarrow> number" where
  "parseInt string =
     (let S = trimStart string;
          sign_neg = (S \<noteq> [] \<and> hd S = 0x2D);
          S1 = (if S \<noteq> [] \<and> (hd S = 0x2B \<or> hd S = 0x2D) then tl S else S);
          Z = takeWhile isDigit S1
      in if Z = [] then NaN
         else if sign_neg then negate (number_of_int (digits_value Z))
         else number_of_int (digits_value Z))"

text \<open>
  \<^verbatim>\<open>s.split(',')\<close>: the pieces between the commas, in order; a string without a
  comma (the empty one too) is its only piece. \<open>piece\<close> is the piece being read.
\<close>

fun split_from :: "jsstring \<Rightarrow> jsstring \<Rightarrow> jsstring list" where
  "split_from piece [] = [piece]"
| "split_from piece (c # cs) =
     (if c = 0x2C then piece # split_from [] cs else split_from (piece @ [c]) cs)"

definition split_comma :: "jsstring \<Rightarrow> jsstring list" where
  "split_comma s = split_from [] s"

section \<open>The two patterns\<close>

text \<open>
  A pattern is run as the backtracking matcher runs it: each piece gets the rest
  of the pattern as a continuation \<open>k\<close> and returns the first success in the
  order of its alternatives. \<open>lit\<close> is a run of literal characters;
  \<open>star_greedy P\<close> is \<^verbatim>\<open>P*\<close>, which takes a character first and gives it back
  when the rest fails; \<open>star_lazy P\<close> is \<^verbatim>\<open>P*?\<close>, which tries the rest first.
  Both hand the text they took to the continuation (the capture).
\<close>

fun lit :: "jsstring \<Rightarrow> (jsstring \<Rightarrow> 'r option) \<Rightarrow> jsstring \<Rightarrow> 'r option" where
  "lit [] k s = k s"
| "lit (p # ps) k [] = None"
| "lit (p # ps) k (c # cs) = (if c = p then lit ps k cs else None)"

fun star_greedy ::
  "(code_unit \<Rightarrow> bool) \<Rightarrow> (jsstring \<Rightarrow> jsstring \<Rightarrow> 'r option) \<Rightarrow> jsstring \<Rightarrow> jsstring \<Rightarrow> 'r option"
where
  "star_greedy P k taken [] = k taken []"
| "star_greedy P k taken (c # cs) =
     (if P c
      then (case star_greedy P k (taken @ [c]) cs of
              Some r \<Rightarrow> Some r
            | None \<Rightarrow> k taken (c # cs))
      else k taken (c # cs))"

fun star_lazy ::
  "(code_unit \<Rightarrow> bool) \<Rightarrow> (jsstring \<Rightarrow> jsstring \<Rightarrow> 'r option) \<Rightarrow> jsstring \<Rightarrow> jsstring \<Rightarrow> 'r option"
where
  "star_lazy P k taken [] = k taken []"
| "star_lazy P k taken (c # cs) =
     (case k taken (c # cs) of
        Some r \<Rightarrow> Some r
      | None \<Rightarrow> if P c then star_lazy P k (taken @ [c]) cs else None)"

text \<open>\<^verbatim>\<open>P+\<close>: one character of the class, then \<^verbatim>\<open>P*\<close>.\<close>

definition plus_greedy ::
  "(code_unit \<Rightarrow> bool) \<Rightarrow> (jsstring \<Rightarrow> jsstring \<Rightarrow> 'r option) \<Rightarrow> jsstring \<Rightarrow> 'r option"
where
  "plus_greedy P k s =
     (case s of [] \<Rightarrow> None
      | c # cs \<Rightarrow> if P c then star_greedy P k [c] cs else None)"

text \<open>
  A pattern without the flag \<^verbatim>\<open>g\<close> is tried at index 0, then 1, and so on to the
  end of the text; the first index where it matches wins. \<open>exec m bef s\<close>
  returns the text before the match with what the match \<open>m\<close> returned.
\<close>

fun exec :: "(jsstring \<Rightarrow> 'r option) \<Rightarrow> jsstring \<Rightarrow> jsstring \<Rightarrow> (jsstring \<times> 'r) option" where
  "exec m bef [] = (case m [] of Some r \<Rightarrow> Some (bef, r) | None \<Rightarrow> None)"
| "exec m bef (c # cs) =
     (case m (c # cs) of
        Some r \<Rightarrow> Some (bef, r)
      | None \<Rightarrow> exec m (bef @ [c]) cs)"

definition START :: jsstring where
  "START = js ''[STATUS]''"

definition END :: jsstring where
  "END = js ''[/STATUS]''"

definition any_unit :: "code_unit \<Rightarrow> bool" where
  "any_unit c \<longleftrightarrow> True"

text \<open>
  The pattern of the streaming loops, \<^verbatim>\<open>/\[STATUS\].*\[\/STATUS\]/s\<close>, at one
  index: it returns the text after the match.
\<close>

definition streamRegex :: "jsstring \<Rightarrow> jsstring option" where
  "streamRegex = lit START (star_greedy any_unit (\<lambda>taken. lit END Some) [])"

text \<open>\<^verbatim>\<open>text.replace(pattern, '')\<close> removes the first match, if there is one.\<close>

definition replace_streamRegex :: "jsstring \<Rightarrow> jsstring" where
  "replace_streamRegex text =
     (case exec streamRegex [] text of
        None \<Rightarrow> text
      | Some (bef, after) \<Rightarrow> bef @ after)"

text \<open>
  The pattern of \<^verbatim>\<open>parseAndUpdateState\<close>,
  \<^verbatim>\<open>/\[STATUS\]HEALTH:(\d+),INVENTORY:(.*?)\[\/STATUS\]/s\<close>, at one index: it
  returns the two captures and the text after the match.
\<close>

definition statusRegex :: "jsstring \<Rightarrow> (jsstring \<times> jsstring \<times> jsstring) option" where
  "statusRegex =
     lit (js ''[STATUS]HEALTH:'')
       (plus_greedy isDigit (\<lambda>m1.
          lit (js '',INVENTORY:'')
            (star_lazy any_unit (\<lambda>m2.
               lit END (\<lambda>after. Some (m1, m2, after))) [])))"

definition replace_statusRegex :: "jsstring \<Rightarrow> jsstring" where
  "replace_statusRegex text =
     (case exec statusRegex [] text of
        None \<Rightarrow> text
      | Some (bef, m1, m2, after) \<Rightarrow> bef @ after)"

section \<open>The session\<close>

text \<open>
  The two module variables \<^verbatim>\<open>playerHealth\<close> and \<^verbatim>\<open>playerInventory\<close>, the disabled
  flag that \<^verbatim>\<open>setFormDisabled\<close> writes to the input, the button and the form, and
  the paragraphs of \<^verbatim>\<open>gameOutput\<close>: each has the text of its text node and may hold
  the cursor element. The status panel that \<^verbatim>\<open>updateStatusUI\<close> paints is a function
  of the two variables and is left out.
\<close>

datatype sender = User | Gemini

record message =
  sender :: sender
  nodeValue :: jsstring
  cursor :: bool

record session =
  playerHealth :: number
  playerInventory :: "jsstring list"
  formDisabled :: bool
  gameOutput :: "message list"

definition initial :: session where
  "initial = \<lparr>playerHealth = Finite 100, playerInventory = [],
              formDisabled = False, gameOutput = []\<rparr>"

definition appendMessage :: "jsstring \<Rightarrow> sender \<Rightarrow> session \<Rightarrow> session" where
  "appendMessage content who s =
     s\<lparr>gameOutput := gameOutput s @ [\<lparr>sender = who, nodeValue = content, cursor = False\<rparr>]\<rparr>"

text \<open>The new paragraph is named by its index in \<^verbatim>\<open>gameOutput\<close>.\<close>

definition createStreamingMessage :: "session \<Rightarrow> nat \<times> session" where
  "createStreamingMessage s =
     (length (gameOutput s),
      s\<lparr>gameOutput := gameOutput s @ [\<lparr>sender = Gemini, nodeValue = [], cursor = True\<rparr>]\<rparr>)"

text \<open>
  \<^verbatim>\<open>streamingMessageEl.childNodes[0].nodeValue = v\<close>, for the paragraph that
  \<^verbatim>\<open>createStreamingMessage\<close> returned: the index is always that of a paragraph of
  the session.
\<close>

definition set_nodeValue :: "nat \<Rightarrow> jsstring \<Rightarrow> session \<Rightarrow> session" where
  "set_nodeValue el v s =
     s\<lparr>gameOutput := (gameOutput s)[el := (gameOutput s ! el)\<lparr>nodeValue := v\<rparr>]\<rparr>"

text \<open>\<^verbatim>\<open>streamingMessageEl.querySelector('.cursor')?.remove()\<close>\<close>

definition remove_cursor :: "nat \<Rightarrow> session \<Rightarrow> session" where
  "remove_cursor el s =
     s\<lparr>gameOutput := (gameOutput s)[el := (gameOutput s ! el)\<lparr>cursor := False\<rparr>]\<rparr>"

definition setFormDisabled :: "bool \<Rightarrow> session \<Rightarrow> session" where
  "setFormDisabled isDisabled s = s\<lparr>formDisabled := isDisabled\<rparr>"

text \<open>
  \<^verbatim>\<open>match[2] ? match[2].split(',').map(item => item.trim()).filter(Boolean) : []\<close>:
  the empty string is the only falsy string.
\<close>

definition inventoryItems :: "jsstring \<Rightarrow> jsstring list" where
  "inventoryItems m2 =
     (if m2 \<noteq> [] then filter (\<lambda>item. item \<noteq> []) (map trim (split_comma m2)) else [])"

text \<open>
  \<^verbatim>\<open>parseAndUpdateState\<close> returns the narrative and the session with the two
  variables as it leaves them.
\<close>

definition parseAndUpdateState :: "jsstring \<Rightarrow> session \<Rightarrow> jsstring \<times> session" where
  "parseAndUpdateState responseText s =
     (let s' = (case exec statusRegex [] responseText of
                  None \<Rightarrow> s
                | Some (bef, m1, m2, after) \<Rightarrow>
                    let newHealth = parseInt m1;
                        s1 = s\<lparr>playerHealth :=
                               (if isNaN newHealth then playerHealth s else newHealth)\<rparr>
                    in s1\<lparr>playerInventory := inventoryItems m2\<rparr>)
      in (trim (replace_statusRegex responseText), s'))"

text \<open>
  One pass of the body of \<^verbatim>\<open>for await (const chunk of stream)\<close>, on the pair of the
  local \<^verbatim>\<open>responseText\<close> and the session, and the loop over the chunks that
  arrive. A chunk is the string \<^verbatim>\<open>chunk.text\<close>.
\<close>

definition on_chunk :: "nat \<Rightarrow> jsstring \<times> session \<Rightarrow> jsstring \<Rightarrow> jsstring \<times> session" where
  "on_chunk el t chunk =
     (let responseText = fst t @ chunk
      in (responseText, set_nodeValue el (trim (replace_streamRegex responseText)) (snd t)))"

fun for_await :: "nat \<Rightarrow> jsstring list \<Rightarrow> jsstring \<times> session \<Rightarrow> jsstring \<times> session" where
  "for_await el [] t = t"
| "for_await el (chunk # stream) t = for_await el stream (on_chunk el t chunk)"

text \<open>
  What the chat service does with one message: \<^verbatim>\<open>sendMessageStream\<close> rejects, or
  it yields chunks and then ends or throws. An asynchronous function of the
  program is fulfilled or, when an exception leaves it, rejected; nothing in the
  program catches a rejection of the listener or of \<^verbatim>\<open>startGame\<close>.
\<close>

datatype stream_end = Done | Throws

datatype reply = SendRejects | Stream "jsstring list" stream_end

datatype completion = Fulfilled | Rejected

text \<open>Lines 142 to 157 of the listener, and the same lines 163 to 175 of \<^verbatim>\<open>startGame\<close>.\<close>

definition respond :: "reply \<Rightarrow> session \<Rightarrow> completion \<times> session" where
  "respond r s =
     (case r of
        SendRejects \<Rightarrow> (Rejected, s)
      | Stream chunks e \<Rightarrow>
          let (el, s1) = createStreamingMessage s;
              (responseText, s2) = for_await el chunks ([], s1)
          in (case e of
                Throws \<Rightarrow> (Rejected, s2)
              | Done \<Rightarrow>
                  let (finalNarrative, s3) = parseAndUpdateState responseText s2;
                      s4 = set_nodeValue el finalNarrative s3;
                      s5 = remove_cursor el s4
                  in (Fulfilled, setFormDisabled False s5)))"

definition startGame :: "reply \<Rightarrow> session \<Rightarrow> completion \<times> session" where
  "startGame r s = respond r (setFormDisabled True s)"

text \<open>The submit listener, on the value of the input field.\<close>

definition submit :: "jsstring \<Rightarrow> reply \<Rightarrow> session \<Rightarrow> completion \<times> session" where
  "submit input_value r s =
     (let userPrompt = trim input_value
      in if userPrompt = [] then (Fulfilled, s)
         else respond r (appendMessage (js ''> '' @ userPrompt) User (setFormDisabled True s)))"

text \<open>
  A session: \<^verbatim>\<open>main\<close> calls \<^verbatim>\<open>startGame\<close> once, then the form is submitted any
  number of times. The browser sends no submit event while the input and the
  button are disabled.
\<close>

fun submissions :: "(jsstring \<times> reply) list \<Rightarrow> session \<Rightarrow> session" where
  "submissions [] s = s"
| "submissions ((v, r) # turns) s =
     submissions turns (if formDisabled s then s else snd (submit v r s))"

definition play :: "reply \<Rightarrow> (jsstring \<times> reply) list \<Rightarrow> session" where
  "play r0 turns = submissions turns (snd (startGame r0 initial))"

text \<open>The game state of a session: the two variables.\<close>

definition game :: "session \<Rightarrow> number \<times> jsstring list" where
  "game s = (playerHealth s, playerInventory s)"

section \<open>What the specification calls a complete marker\<close>

text \<open>
  The wire format in words: the start sentinel, \<^verbatim>\<open>HEALTH:\<close>, one or more decimal
  digits, \<^verbatim>\<open>,INVENTORY:\<close>, any text, the end sentinel. This predicate follows
  those words and not the pattern; \<open>exec_statusRegex_iff\<close> below compares the two.
\<close>

definition has_complete_marker :: "jsstring \<Rightarrow> bool" where
  "has_complete_marker text \<longleftrightarrow>
     (\<exists>bef m1 m2 after.
        text = bef @ js ''[STATUS]HEALTH:'' @ m1 @ js '',INVENTORY:'' @ m2 @ END @ after
        \<and> m1 \<noteq> [] \<and> list_all isDigit m1)"

section \<open>What splitting at commas and trimming mean\<close>

text \<open>
  Two definitions in the words of the specification, not taken from the code,
  to compare \<open>split_comma\<close> and \<open>trim\<close> with. \<open>join_comma\<close> writes pieces with
  a comma between neighbours: a text is split at its commas into the pieces
  that hold no comma and join to it. \<open>is_trim_of core x\<close> says that \<open>x\<close> is
  \<open>core\<close> between two runs of white space, and that \<open>core\<close> neither starts nor
  ends with white space.
\<close>

fun join_comma :: "jsstring list \<Rightarrow> jsstring" where
  "join_comma [] = []"
| "join_comma [p] = p"
| "join_comma (p # q # ps) = p @ 0x2C # join_comma (q # ps)"

definition is_trim_of :: "jsstring \<Rightarrow> jsstring \<Rightarrow> bool" where
  "is_trim_of core x \<longleftrightarrow>
     (\<exists>l r. x = l @ core @ r \<and> list_all isWhiteSpace l \<and> list_all isWhiteSpace r
            \<and> (core = [] \<or> (\<not> isWhiteSpace (hd core) \<and> \<not> isWhiteSpace (last core))))"

section \<open>The invariant of the game state\<close>

text \<open>
  The health is a number that is not negative: a non-negative integer or, for a
  digit string beyond the range of a double, positive infinity; never NaN. An
  inventory entry is not empty and has no white space at either end.
\<close>

definition health_ok :: "number \<Rightarrow> bool" where
  "health_ok h = (case h of Finite i \<Rightarrow> 0 \<le> i | PosInfinity \<Rightarrow> True
                    | NegInfinity \<Rightarrow> False | NaN \<Rightarrow> False)"

definition item_ok :: "jsstring \<Rightarrow> bool" where
  "item_ok item \<longleftrightarrow> item \<noteq> [] \<and> trim item = item"

definition game_ok :: "session \<Rightarrow> bool" where
  "game_ok s \<longleftrightarrow> health_ok (playerHealth s) \<and> list_all item_ok (playerInventory s)"

section \<open>The matcher\<close>

lemma lit_append: "lit p k (p @ t) = k t"
  by (induction p) auto

lemma lit_SomeD: "lit p k s = Some r \<Longrightarrow> \<exists>t. s = p @ t \<and> k t = Some r"
  by (induction p k s rule: lit.induct) (auto split: if_splits)

lemma lit_not_prefix: "\<not> prefix p s \<Longrightarrow> lit p k s = None"
  by (induction p k s rule: lit.induct) auto

lemma star_greedy_SomeD:
  "star_greedy P k taken s = Some r \<Longrightarrow>
   \<exists>u v. s = u @ v \<and> list_all P u \<and> k (taken @ u) v = Some r"
proof (induction P k taken s rule: star_greedy.induct)
  case (1 P k taken)
  then show ?case by simp
next
  case (2 P k taken c cs)
  show ?case
  proof (cases "P c \<and> star_greedy P k (taken @ [c]) cs \<noteq> None")
    case True
    with 2 obtain u v where "cs = u @ v" "list_all P u" "k ((taken @ [c]) @ u) v = Some r"
      by (auto split: option.splits)
    then have "c # cs = (c # u) @ v \<and> list_all P (c # u) \<and> k (taken @ c # u) v = Some r"
      using True by simp
    then show ?thesis by blast
  next
    case False
    with 2 have "k taken (c # cs) = Some r"
      by (auto split: if_splits option.splits)
    then have "c # cs = [] @ (c # cs) \<and> list_all P [] \<and> k (taken @ []) (c # cs) = Some r"
      by simp
    then show ?thesis by blast
  qed
qed

lemma star_lazy_SomeD:
  "star_lazy P k taken s = Some r \<Longrightarrow>
   \<exists>u v. s = u @ v \<and> list_all P u \<and> k (taken @ u) v = Some r"
proof (induction P k taken s rule: star_lazy.induct)
  case (1 P k taken)
  then show ?case by simp
next
  case (2 P k taken c cs)
  show ?case
  proof (cases "k taken (c # cs)")
    case (Some r')
    with 2 have "c # cs = [] @ (c # cs) \<and> list_all P [] \<and> k (taken @ []) (c # cs) = Some r"
      by simp
    then show ?thesis by blast
  next
    case None
    with 2 have pc: "P c" and "star_lazy P k (taken @ [c]) cs = Some r"
      by (auto split: if_splits)
    with 2 None obtain u v where "cs = u @ v" "list_all P u" "k ((taken @ [c]) @ u) v = Some r"
      by auto
    then have "c # cs = (c # u) @ v \<and> list_all P (c # u) \<and> k (taken @ c # u) v = Some r"
      using pc by simp
    then show ?thesis by blast
  qed
qed

lemma exec_SomeD:
  "exec m bef s = Some (b, r) \<Longrightarrow> \<exists>u v. s = u @ v \<and> b = bef @ u \<and> m v = Some r"
proof (induction m bef s rule: exec.induct)
  case (1 m bef)
  then show ?case by (auto split: option.splits)
next
  case (2 m bef c cs)
  show ?case
  proof (cases "m (c # cs)")
    case (Some r')
    with 2 have "c # cs = [] @ (c # cs) \<and> b = bef @ [] \<and> m (c # cs) = Some r"
      by simp
    then show ?thesis by blast
  next
    case None
    with 2 obtain u v where "cs = u @ v" "b = (bef @ [c]) @ u" "m v = Some r"
      by auto
    then have "c # cs = (c # u) @ v \<and> b = bef @ (c # u) \<and> m v = Some r"
      by simp
    then show ?thesis by blast
  qed
qed

lemma exec_None_iff:
  "exec m bef s = None \<longleftrightarrow> (\<forall>u v. s = u @ v \<longrightarrow> m v = None)"
proof (induction m bef s rule: exec.induct)
  case (1 m bef)
  have "exec m bef [] = None \<longleftrightarrow> m [] = None"
    by (cases "m []") simp_all
  also have "\<dots> \<longleftrightarrow> (\<forall>u v. ([]::jsstring) = u @ v \<longrightarrow> m v = None)"
    by simp
  finally show ?case .
next
  case (2 m bef c cs)
  show ?case
  proof (cases "m (c # cs)")
    case (Some r')
    have "\<not> (\<forall>u v. c # cs = u @ v \<longrightarrow> m v = None)"
    proof
      assume "\<forall>u v. c # cs = u @ v \<longrightarrow> m v = None"
      from this [rule_format, of "[]" "c # cs"] Some show False by simp
    qed
    moreover have "exec m bef (c # cs) \<noteq> None" using Some by simp
    ultimately show ?thesis by blast
  next
    case None
    have shift: "(\<forall>u v. c # cs = u @ v \<longrightarrow> m v = None) \<longleftrightarrow> (\<forall>u v. cs = u @ v \<longrightarrow> m v = None)"
    proof (intro iffI allI impI)
      fix u v assume a: "\<forall>u v. c # cs = u @ v \<longrightarrow> m v = None" and "cs = u @ v"
      then have "c # cs = (c # u) @ v" by simp
      with a show "m v = None" by blast
    next
      fix u v assume a: "\<forall>u v. cs = u @ v \<longrightarrow> m v = None" and e: "c # cs = u @ v"
      show "m v = None"
      proof (cases u)
        case Nil
        with e None show ?thesis by simp
      next
        case (Cons x u')
        with e have "cs = u' @ v" by simp
        with a show ?thesis by blast
      qed
    qed
    have unfold: "exec m bef (c # cs) = exec m (bef @ [c]) cs"
      using None by simp
    show ?thesis
      by (simp only: unfold shift "2.IH" [OF None])
  qed
qed

text \<open>The search passes over a stretch where the pattern fails at every index.\<close>

lemma exec_skip:
  "(\<And>u1 u2. pre = u1 @ u2 \<Longrightarrow> u2 \<noteq> [] \<Longrightarrow> m (u2 @ rest) = None) \<Longrightarrow>
   exec m bef (pre @ rest) = exec m (bef @ pre) rest"
proof (induction pre arbitrary: bef)
  case Nil
  then show ?case by simp
next
  case (Cons c pre)
  have "m ((c # pre) @ rest) = None"
    using Cons.prems [of "[]" "c # pre"] by simp
  moreover have "exec m (bef @ [c]) (pre @ rest) = exec m ((bef @ [c]) @ pre) rest"
  proof (rule Cons.IH)
    fix u1 u2 assume "pre = u1 @ u2" "u2 \<noteq> []"
    then show "m (u2 @ rest) = None"
      using Cons.prems [of "c # u1" u2] by simp
  qed
  ultimately show ?case by simp
qed

lemma exec_here: "m s = Some r \<Longrightarrow> exec m bef s = Some (bef, r)"
  by (cases s) auto

section \<open>The status pattern and the health field\<close>

lemma plus_greedy_SomeD:
  assumes "plus_greedy P k s = Some r"
  shows "\<exists>u v. s = u @ v \<and> u \<noteq> [] \<and> list_all P u \<and> k u v = Some r"
proof (cases s)
  case Nil
  with assms show ?thesis by (simp add: plus_greedy_def)
next
  case (Cons c cs)
  with assms have pc: "P c" and "star_greedy P k [c] cs = Some r"
    by (auto simp: plus_greedy_def split: if_splits)
  from star_greedy_SomeD [OF this(2)]
  obtain u v where "cs = u @ v" "list_all P u" "k ([c] @ u) v = Some r"
    by blast
  with Cons pc have "s = (c # u) @ v \<and> c # u \<noteq> [] \<and> list_all P (c # u) \<and> k (c # u) v = Some r"
    by simp
  then show ?thesis by blast
qed

lemma statusRegex_SomeD:
  assumes "statusRegex v = Some (m1, m2, after)"
  shows "v = js ''[STATUS]HEALTH:'' @ m1 @ js '',INVENTORY:'' @ m2 @ END @ after
         \<and> m1 \<noteq> [] \<and> list_all isDigit m1"
proof -
  let ?k2 = "\<lambda>d m2. lit END (\<lambda>after. Some (d, m2, after))"
  let ?k1 = "\<lambda>d. lit (js '',INVENTORY:'') (star_lazy any_unit (?k2 d) [])"
  have "lit (js ''[STATUS]HEALTH:'') (plus_greedy isDigit ?k1) v = Some (m1, m2, after)"
    using assms by (simp only: statusRegex_def)
  from lit_SomeD [OF this] obtain t where v: "v = js ''[STATUS]HEALTH:'' @ t"
    and t: "plus_greedy isDigit ?k1 t = Some (m1, m2, after)"
    by blast
  from plus_greedy_SomeD [OF t] obtain d w where tw: "t = d @ w" and d: "d \<noteq> []" "list_all isDigit d"
    and w: "?k1 d w = Some (m1, m2, after)"
    by blast
  from lit_SomeD [OF w] obtain x where wx: "w = js '',INVENTORY:'' @ x"
    and x: "star_lazy any_unit (?k2 d) [] x = Some (m1, m2, after)"
    by blast
  from star_lazy_SomeD [OF x] obtain y z where xy: "x = y @ z"
    and z: "?k2 d ([] @ y) z = Some (m1, m2, after)"
    by blast
  from lit_SomeD [OF z] obtain a where za: "z = END @ a" and "Some (d, [] @ y, a) = Some (m1, m2, after)"
    by blast
  then have "d = m1" "y = m2" "a = after" by simp_all
  with v tw wx xy za d show ?thesis by simp
qed

lemma exec_statusRegex_SomeD:
  assumes "exec statusRegex [] text = Some (bef, m1, m2, after)"
  shows "text = bef @ js ''[STATUS]HEALTH:'' @ m1 @ js '',INVENTORY:'' @ m2 @ END @ after
         \<and> m1 \<noteq> [] \<and> list_all isDigit m1"
proof -
  from exec_SomeD [OF assms] obtain u v where "text = u @ v" "bef = [] @ u"
    and "statusRegex v = Some (m1, m2, after)"
    by blast
  with statusRegex_SomeD [of v m1 m2 after] show ?thesis by simp
qed

lemma js_append: "js (a @ b) = js a @ js b"
  by (simp add: js_def)

lemma health_prefix: "js ''[STATUS]HEALTH:'' = START @ js ''HEALTH:''"
  by (simp add: START_def js_def)

lemma exec_statusRegex_sublist:
  assumes "exec statusRegex [] text = Some (bef, m1, m2, after)"
  shows "sublist START text"
proof -
  from exec_statusRegex_SomeD [OF assms]
  have "text = bef @ START @ (js ''HEALTH:'' @ m1 @ js '',INVENTORY:'' @ m2 @ END @ after)"
    by (simp add: health_prefix)
  then show ?thesis
    unfolding sublist_def by blast
qed

lemma digit_not_space: "isDigit c \<Longrightarrow> \<not> isWhiteSpace c"
proof -
  assume d: "isDigit c"
  then have "c \<le> 0x39" "0x30 \<le> c" by (simp_all add: isDigit_def)
  then have "unat c \<le> 57" "48 \<le> unat c"
    by (simp_all add: word_le_nat_alt)
  then show ?thesis
    by (auto simp: isWhiteSpace_def word_le_nat_alt)
qed

lemma digit_not_sign: "isDigit c \<Longrightarrow> c \<noteq> 0x2B \<and> c \<noteq> 0x2D"
  by (auto simp: isDigit_def)

lemma digits_value_nonneg: "0 \<le> digits_value Z"
proof -
  have "0 \<le> a \<Longrightarrow> 0 \<le> foldl (\<lambda>a c. 10 * a + uint (c - 0x30)) a Z" for a :: int
    by (induction Z arbitrary: a) simp_all
  then show ?thesis by (simp add: digits_value_def)
qed

lemma number_of_int_cases:
  assumes "0 \<le> n"
  shows "number_of_int n = PosInfinity \<or> (\<exists>i. 0 \<le> i \<and> number_of_int n = Finite i)"
proof -
  define e where "e = mant_shift n"
  define q' where "q' = (if 2 ^ e < 2 * (n mod 2 ^ e) \<or> (2 * (n mod 2 ^ e) = 2 ^ e \<and> odd (n div 2 ^ e))
                         then n div 2 ^ e + 1 else n div 2 ^ e)"
  have "0 \<le> n div 2 ^ e" using assms by (simp add: pos_imp_zdiv_nonneg_iff)
  then have "0 \<le> q'" by (simp add: q'_def)
  then have nn: "0 \<le> q' * 2 ^ e" by simp
  have "number_of_int n = (if 2 ^ 1024 \<le> q' * 2 ^ e then PosInfinity else Finite (q' * 2 ^ e))"
    by (simp only: number_of_int_def Let_def e_def q'_def)
  with nn show ?thesis by auto
qed

lemma parseInt_digits:
  assumes "m1 \<noteq> []" "list_all isDigit m1"
  shows "parseInt m1 = number_of_int (digits_value m1)"
proof -
  from assms obtain c cs where m1: "m1 = c # cs" and c: "isDigit c"
    by (cases m1) auto
  have ts: "trimStart m1 = m1"
    using m1 c digit_not_space by (simp add: trimStart_def)
  have tw: "takeWhile isDigit m1 = m1"
    using assms(2) by (simp add: list_all_iff)
  have hd: "hd m1 = c" using m1 by simp
  have S1: "(if m1 \<noteq> [] \<and> (hd m1 = 0x2B \<or> hd m1 = 0x2D) then tl m1 else m1) = m1"
    using digit_not_sign [OF c] hd by simp
  have neg: "\<not> (m1 \<noteq> [] \<and> hd m1 = 0x2D)"
    using digit_not_sign [OF c] hd by simp
  show ?thesis
    unfolding parseInt_def Let_def ts S1 tw
    using assms(1) neg by simp
qed

lemma parseInt_match_not_NaN:
  assumes "m1 \<noteq> []" "list_all isDigit m1"
  shows "parseInt m1 \<noteq> NaN"
  using number_of_int_cases [OF digits_value_nonneg, of m1] parseInt_digits [OF assms] by auto

lemma star_lazy_complete:
  "list_all P u \<Longrightarrow> k (taken @ u) v \<noteq> None \<Longrightarrow> star_lazy P k taken (u @ v) \<noteq> None"
proof (induction u arbitrary: taken)
  case Nil
  then show ?case by (cases v) (auto split: option.splits)
next
  case (Cons a u)
  from Cons.prems have "star_lazy P k (taken @ [a]) (u @ v) \<noteq> None"
    by (intro Cons.IH) simp_all
  with Cons.prems show ?case by (auto split: option.splits)
qed

lemma star_greedy_complete:
  "list_all P u \<Longrightarrow> k (taken @ u) v \<noteq> None \<Longrightarrow> star_greedy P k taken (u @ v) \<noteq> None"
proof (induction u arbitrary: taken)
  case Nil
  then show ?case by (cases v) (auto split: option.splits)
next
  case (Cons a u)
  from Cons.prems have "star_greedy P k (taken @ [a]) (u @ v) \<noteq> None"
    by (intro Cons.IH) simp_all
  with Cons.prems show ?case by (auto split: option.splits)
qed

lemma plus_greedy_complete:
  assumes "u \<noteq> []" "list_all P u" "k u v \<noteq> None"
  shows "plus_greedy P k (u @ v) \<noteq> None"
proof -
  from assms obtain a u' where u: "u = a # u'" and a: "P a" and u': "list_all P u'"
    by (cases u) auto
  have "star_greedy P k [a] (u' @ v) \<noteq> None"
    using u' assms(3) u by (intro star_greedy_complete) simp_all
  with a u show ?thesis by (simp add: plus_greedy_def)
qed

lemma statusRegex_complete:
  assumes "m1 \<noteq> []" "list_all isDigit m1"
  shows "statusRegex (js ''[STATUS]HEALTH:'' @ m1 @ js '',INVENTORY:'' @ m2 @ END @ after) \<noteq> None"
proof -
  let ?k2 = "\<lambda>d m2. lit END (\<lambda>after. Some (d, m2, after))"
  let ?k1 = "\<lambda>d. lit (js '',INVENTORY:'') (star_lazy any_unit (?k2 d) [])"
  have "?k2 m1 ([] @ m2) (END @ after) \<noteq> None"
    by (simp add: lit_append)
  moreover have "list_all any_unit m2"
    by (simp add: list_all_iff any_unit_def)
  ultimately have "star_lazy any_unit (?k2 m1) [] (m2 @ END @ after) \<noteq> None"
    by (rule star_lazy_complete [rotated])
  then have "?k1 m1 (js '',INVENTORY:'' @ m2 @ END @ after) \<noteq> None"
    by (simp add: lit_append)
  with assms have "plus_greedy isDigit ?k1 (m1 @ js '',INVENTORY:'' @ m2 @ END @ after) \<noteq> None"
    by (intro plus_greedy_complete)
  then show ?thesis
    by (simp add: statusRegex_def lit_append)
qed

lemma exec_statusRegex_iff:
  "exec statusRegex [] text \<noteq> None \<longleftrightarrow> has_complete_marker text"
proof
  assume "exec statusRegex [] text \<noteq> None"
  then obtain bef m1 m2 after where "exec statusRegex [] text = Some (bef, m1, m2, after)"
    by (cases "exec statusRegex [] text") auto
  from exec_statusRegex_SomeD [OF this] show "has_complete_marker text"
    unfolding has_complete_marker_def by blast
next
  assume "has_complete_marker text"
  then obtain bef m1 m2 after where
    t: "text = bef @ js ''[STATUS]HEALTH:'' @ m1 @ js '',INVENTORY:'' @ m2 @ END @ after"
    and m1: "m1 \<noteq> []" "list_all isDigit m1"
    unfolding has_complete_marker_def by blast
  show "exec statusRegex [] text \<noteq> None"
  proof
    assume "exec statusRegex [] text = None"
    then have "statusRegex (js ''[STATUS]HEALTH:'' @ m1 @ js '',INVENTORY:'' @ m2 @ END @ after) = None"
      using t by (simp only: exec_None_iff)
    with statusRegex_complete [OF m1] show False by blast
  qed
qed

lemma parse_no_match:
  assumes "exec statusRegex [] text = None"
  shows "parseAndUpdateState text s = (trim text, s)"
  using assms by (simp add: parseAndUpdateState_def replace_statusRegex_def)

lemma parse_match:
  assumes "exec statusRegex [] text = Some (bef, m1, m2, after)"
  shows "parseAndUpdateState text s =
           (trim (bef @ after),
            s\<lparr>playerHealth := parseInt m1, playerInventory := inventoryItems m2\<rparr>)"
proof -
  from exec_statusRegex_SomeD [OF assms] have "m1 \<noteq> []" "list_all isDigit m1"
    by simp_all
  then have "\<not> isNaN (parseInt m1)"
    using parseInt_match_not_NaN by (simp add: isNaN_def)
  with assms show ?thesis
    by (simp add: parseAndUpdateState_def replace_statusRegex_def Let_def)
qed

text \<open>Unfolding the patterns and the string functions on a literal text.\<close>

lemmas pattern_eval =
  statusRegex_def streamRegex_def START_def END_def js_def any_unit_def plus_greedy_def
  isDigit_def

lemmas string_eval = trim_def isWhiteSpace_def js_def split_comma_def

section \<open>The streaming pattern\<close>

lemma star_greedy_any_all_fail:
  "(\<And>v1 v2. v = v1 @ v2 \<Longrightarrow> v1 \<noteq> [] \<Longrightarrow> g v2 = None) \<Longrightarrow>
   star_greedy any_unit (\<lambda>taken. g) taken v = g v"
proof (induction v arbitrary: taken)
  case Nil
  then show ?case by simp
next
  case (Cons c cs)
  have "star_greedy any_unit (\<lambda>taken. g) (taken @ [c]) cs = g cs"
  proof (rule Cons.IH)
    fix v1 v2 assume "cs = v1 @ v2" "v1 \<noteq> []"
    then show "g v2 = None" using Cons.prems [of "c # v1" v2] by simp
  qed
  moreover have "g cs = None"
    using Cons.prems [of "[c]" cs] by simp
  moreover have "any_unit c" by (simp add: any_unit_def)
  ultimately show ?case by simp
qed

lemma star_greedy_any_last:
  assumes "g v = Some r" and "\<And>v1 v2. v = v1 @ v2 \<Longrightarrow> v1 \<noteq> [] \<Longrightarrow> g v2 = None"
  shows "star_greedy any_unit (\<lambda>taken. g) taken (u @ v) = Some r"
proof (induction u arbitrary: taken)
  case Nil
  show ?case using star_greedy_any_all_fail [of v g taken] assms by simp
next
  case (Cons a u)
  moreover have "any_unit a" by (simp add: any_unit_def)
  ultimately show ?case by simp
qed

lemma prefix_shorter:
  assumes "prefix xs (ys @ zs)" "length xs \<le> length ys"
  shows "prefix xs ys"
proof -
  from assms(1) have "xs = take (length xs) (ys @ zs)"
    by (metis append_eq_conv_conj prefix_def)
  with assms(2) have "xs = take (length xs) ys" by simp
  then show ?thesis by (metis take_is_prefix)
qed

lemma streamRegex_SomeD:
  assumes "streamRegex v = Some after"
  shows "\<exists>mid. v = START @ mid @ END @ after"
proof -
  have "lit START (star_greedy any_unit (\<lambda>taken. lit END Some) []) v = Some after"
    using assms by (simp only: streamRegex_def)
  from lit_SomeD [OF this] obtain w where v: "v = START @ w"
    and w: "star_greedy any_unit (\<lambda>taken. lit END Some) [] w = Some after"
    by blast
  from star_greedy_SomeD [OF w] obtain x y where wx: "w = x @ y" and "lit END Some y = Some after"
    by blast
  from lit_SomeD [OF this(2)] have "y = END @ after" by simp
  with v wx show ?thesis by simp
qed

lemma exec_streamRegex_None:
  assumes "\<not> (\<exists>pre mid post. acc = pre @ START @ mid @ END @ post)"
  shows "exec streamRegex [] acc = None"
proof (cases "exec streamRegex [] acc")
  case None
  then show ?thesis .
next
  case (Some a)
  then obtain b after where "exec streamRegex [] acc = Some (b, after)"
    by (cases a) auto
  from exec_SomeD [OF this] obtain u v where "acc = u @ v" "streamRegex v = Some after"
    by blast
  with streamRegex_SomeD [of v after] obtain mid where "acc = u @ START @ mid @ END @ after"
    by auto
  with assms show ?thesis by blast
qed

lemma START_length: "length START = 8"
  by (simp add: START_def js_def)

lemma END_length: "length END = 9"
  by (simp add: END_def js_def)

lemma exec_streamRegex_first_last:
  assumes first: "\<not> sublist START (pre @ butlast START)"
    and last: "\<not> sublist END (tl END @ post)"
  shows "exec streamRegex [] (pre @ START @ mid @ END @ post) = Some (pre, post)"
proof -
  let ?rest = "START @ mid @ END @ post"
  have here: "streamRegex ?rest = Some post"
  proof -
    have "lit END Some (END @ post) = Some post"
      by (simp only: lit_append)
    moreover have "lit END Some v2 = None" if "END @ post = v1 @ v2" "v1 \<noteq> []" for v1 v2
    proof (rule ccontr)
      assume "lit END Some v2 \<noteq> None"
      then obtain r where "lit END Some v2 = Some r" by blast
      from lit_SomeD [OF this] obtain t where v2: "v2 = END @ t" by blast
      from that obtain c v1' where v1: "v1 = c # v1'" by (cases v1) auto
      have "END \<noteq> []" using END_length by auto
      then have "tl (END @ post) = tl END @ post" by simp
      with that(1) v1 v2 have "tl END @ post = v1' @ END @ t" by simp
      then have "sublist END (tl END @ post)"
        unfolding sublist_def by blast
      with last show False by blast
    qed
    ultimately have "star_greedy any_unit (\<lambda>taken. lit END Some) [] (mid @ END @ post) = Some post"
      by (rule star_greedy_any_last)
    then show ?thesis
      by (simp add: streamRegex_def lit_append)
  qed
  have skip: "streamRegex (u2 @ ?rest) = None" if "pre = u1 @ u2" "u2 \<noteq> []" for u1 u2
  proof -
    have "\<not> prefix START (u2 @ ?rest)"
    proof
      assume p: "prefix START (u2 @ ?rest)"
      have ne: "START \<noteq> []" using START_length by auto
      then have split: "START = butlast START @ [last START]" by simp
      have "u2 @ ?rest = (u2 @ butlast START) @ ([last START] @ mid @ END @ post)"
        using split by (metis append.assoc)
      moreover have "length START \<le> length (u2 @ butlast START)"
        using that(2) ne by (cases u2) simp_all
      ultimately have "prefix START (u2 @ butlast START)"
        using p prefix_shorter by metis
      then obtain zs where "u2 @ butlast START = START @ zs"
        by (auto simp: prefix_def)
      with that(1) have "pre @ butlast START = u1 @ START @ zs" by simp
      then have "sublist START (pre @ butlast START)"
        unfolding sublist_def by blast
      with first show False by blast
    qed
    then show ?thesis
      by (simp add: streamRegex_def lit_not_prefix)
  qed
  have "exec streamRegex [] (pre @ ?rest) = exec streamRegex ([] @ pre) ?rest"
    using skip by (rule exec_skip)
  also have "\<dots> = Some (pre, post)"
    using here exec_here [of streamRegex ?rest post "[] @ pre"] by simp
  finally show ?thesis .
qed

section \<open>The streaming loop and the turn\<close>

lemma set_nodeValue_simps:
  "playerHealth (set_nodeValue el v s) = playerHealth s"
  "playerInventory (set_nodeValue el v s) = playerInventory s"
  "formDisabled (set_nodeValue el v s) = formDisabled s"
  "length (gameOutput (set_nodeValue el v s)) = length (gameOutput s)"
  by (simp_all add: set_nodeValue_def)

lemma set_nodeValue_shown:
  "el < length (gameOutput s) \<Longrightarrow> nodeValue (gameOutput (set_nodeValue el v s) ! el) = v"
  by (simp add: set_nodeValue_def)

lemma on_chunk_simps:
  "fst (on_chunk el t chunk) = fst t @ chunk"
  "playerHealth (snd (on_chunk el t chunk)) = playerHealth (snd t)"
  "playerInventory (snd (on_chunk el t chunk)) = playerInventory (snd t)"
  "formDisabled (snd (on_chunk el t chunk)) = formDisabled (snd t)"
  "length (gameOutput (snd (on_chunk el t chunk))) = length (gameOutput (snd t))"
  by (simp_all add: on_chunk_def Let_def set_nodeValue_simps)

lemma on_chunk_shown:
  "el < length (gameOutput (snd t)) \<Longrightarrow>
   nodeValue (gameOutput (snd (on_chunk el t chunk)) ! el) = trim (replace_streamRegex (fst t @ chunk))"
  by (simp add: on_chunk_def Let_def set_nodeValue_shown)

lemma for_await_text: "fst (for_await el chunks t) = fst t @ concat chunks"
  by (induction chunks arbitrary: t) (simp_all add: on_chunk_simps)

lemma for_await_health: "playerHealth (snd (for_await el chunks t)) = playerHealth (snd t)"
  by (induction chunks arbitrary: t) (simp_all add: on_chunk_simps)

lemma for_await_inventory: "playerInventory (snd (for_await el chunks t)) = playerInventory (snd t)"
  by (induction chunks arbitrary: t) (simp_all add: on_chunk_simps)

lemma for_await_disabled: "formDisabled (snd (for_await el chunks t)) = formDisabled (snd t)"
  by (induction chunks arbitrary: t) (simp_all add: on_chunk_simps)

lemma for_await_length:
  "length (gameOutput (snd (for_await el chunks t))) = length (gameOutput (snd t))"
  by (induction chunks arbitrary: t) (simp_all add: on_chunk_simps)

text \<open>The state in the middle of a stream is the state after the chunks received so far.\<close>

lemma for_await_append:
  "for_await el (xs @ ys) t = for_await el ys (for_await el xs t)"
  by (induction xs arbitrary: t) simp_all

lemma for_await_shown:
  assumes "el < length (gameOutput (snd t))" "chunks \<noteq> []"
  shows "nodeValue (gameOutput (snd (for_await el chunks t)) ! el)
           = trim (replace_streamRegex (fst t @ concat chunks))"
  using assms(2,1)
proof (induction chunks arbitrary: t rule: rev_nonempty_induct)
  case (single x)
  then show ?case by (simp add: on_chunk_shown)
next
  case (snoc x xs)
  let ?t = "for_await el xs t"
  have "el < length (gameOutput (snd ?t))"
    using snoc.prems by (simp add: for_await_length)
  then have "nodeValue (gameOutput (snd (on_chunk el ?t x)) ! el)
               = trim (replace_streamRegex (fst ?t @ x))"
    by (rule on_chunk_shown)
  then show ?case
    by (simp add: for_await_append for_await_text)
qed

lemma for_await_game: "game (snd (for_await el chunks t)) = game (snd t)"
  by (simp add: game_def for_await_health for_await_inventory)

lemma createStreamingMessage_simps:
  "fst (createStreamingMessage s) = length (gameOutput s)"
  "playerHealth (snd (createStreamingMessage s)) = playerHealth s"
  "playerInventory (snd (createStreamingMessage s)) = playerInventory s"
  "formDisabled (snd (createStreamingMessage s)) = formDisabled s"
  "length (gameOutput (snd (createStreamingMessage s))) = Suc (length (gameOutput s))"
  by (simp_all add: createStreamingMessage_def)

text \<open>The game state that \<^verbatim>\<open>parseAndUpdateState\<close> leaves depends on the text only.\<close>

lemma parse_game:
  "game (snd (parseAndUpdateState text s)) =
     (case exec statusRegex [] text of
        None \<Rightarrow> game s
      | Some (bef, m1, m2, after) \<Rightarrow> (parseInt m1, inventoryItems m2))"
proof (cases "exec statusRegex [] text")
  case None
  then show ?thesis by (simp add: parse_no_match)
next
  case (Some a)
  then obtain bef m1 m2 after where m: "exec statusRegex [] text = Some (bef, m1, m2, after)"
    by (cases a) auto
  then show ?thesis by (simp add: parse_match game_def)
qed

lemma parse_disabled: "formDisabled (snd (parseAndUpdateState text s)) = formDisabled s"
  by (simp add: parseAndUpdateState_def Let_def split: option.splits)

lemma parse_output: "gameOutput (snd (parseAndUpdateState text s)) = gameOutput s"
  by (simp add: parseAndUpdateState_def Let_def split: option.splits)

lemma respond_Throws:
  "respond (Stream chunks Throws) s =
     (Rejected, snd (for_await (length (gameOutput s)) chunks ([], snd (createStreamingMessage s))))"
  by (simp add: respond_def createStreamingMessage_def Let_def split: prod.splits)

lemma respond_Done_game:
  "game (snd (respond (Stream chunks Done) s)) = game (snd (parseAndUpdateState (concat chunks) s))"
proof -
  obtain el s1 where c: "createStreamingMessage s = (el, s1)" by (cases "createStreamingMessage s")
  obtain rt s2 where f: "for_await el chunks ([], s1) = (rt, s2)" by (cases "for_await el chunks ([], s1)")
  obtain fin s3 where p: "parseAndUpdateState rt s2 = (fin, s3)" by (cases "parseAndUpdateState rt s2")
  have rt: "rt = concat chunks"
    using for_await_text [of el chunks "([], s1)"] f by simp
  have "game s2 = game s1"
    using for_await_game [of el chunks "([], s1)"] f by simp
  also have "\<dots> = game s"
    using c createStreamingMessage_simps(2,3) [of s] by (simp add: game_def)
  finally have g: "game s2 = game s" .
  have "game (snd (respond (Stream chunks Done) s)) = game s3"
    by (simp add: respond_def c f p Let_def game_def set_nodeValue_def remove_cursor_def
        setFormDisabled_def)
  also have "\<dots> = game (snd (parseAndUpdateState rt s2))"
    using p by simp
  also have "\<dots> = game (snd (parseAndUpdateState rt s))"
    using g by (simp add: parse_game split: option.splits)
  finally show ?thesis using rt by simp
qed

lemma prelude_game:
  "game (appendMessage content who (setFormDisabled b s)) = game s"
  by (simp add: game_def appendMessage_def setFormDisabled_def)

lemma prelude_length:
  "length (gameOutput (appendMessage content who (setFormDisabled b s))) = Suc (length (gameOutput s))"
  by (simp add: appendMessage_def setFormDisabled_def)

lemma prelude_disabled:
  "formDisabled (appendMessage content who (setFormDisabled b s)) = b"
  by (simp add: appendMessage_def setFormDisabled_def)

lemma createStreamingMessage_game: "game (snd (createStreamingMessage s)) = game s"
  by (simp add: game_def createStreamingMessage_def)

lemma submissions_disabled: "formDisabled s \<Longrightarrow> submissions turns s = s"
  by (induction turns) auto

section \<open>The invariant is kept\<close>

lemma trim_idem: "trim (trim x) = trim x"
proof -
  let ?W = isWhiteSpace
  define a where "a = dropWhile ?W x"
  define b where "b = dropWhile ?W (rev a)"
  have t: "trim x = rev b" by (simp add: trim_def a_def b_def)
  have b_idem: "dropWhile ?W b = b" by (simp add: b_def)
  have "dropWhile ?W (rev b) = rev b"
  proof (cases "b = []")
    case True
    then show ?thesis by simp
  next
    case False
    then have ra: "rev a \<noteq> []" by (auto simp: b_def)
    then have "a \<noteq> []" by simp
    then have "\<not> ?W (hd a)" unfolding a_def by (rule hd_dropWhile)
    moreover have "rev a = takeWhile ?W (rev a) @ b" by (simp add: b_def)
    then have "last (rev a) = last b" using False by (metis last_appendR)
    then have "last b = hd a" using \<open>a \<noteq> []\<close> by (simp add: last_rev)
    ultimately have "\<not> ?W (hd (rev b))" using False by (simp add: hd_rev)
    then show ?thesis by (simp add: dropWhile_eq_self_iff)
  qed
  then have "trim (rev b) = rev b"
    by (simp add: trim_def b_idem)
  with t show ?thesis by simp
qed

lemma inventoryItems_ok: "list_all item_ok (inventoryItems m2)"
  by (auto simp: inventoryItems_def item_ok_def list_all_iff trim_idem)

lemma parseInt_digits_ok:
  assumes "m1 \<noteq> []" "list_all isDigit m1"
  shows "health_ok (parseInt m1)"
  using number_of_int_cases [OF digits_value_nonneg, of m1] parseInt_digits [OF assms]
  by (auto simp: health_ok_def)

lemma game_ok_game: "game s = game s' \<Longrightarrow> game_ok s = game_ok s'"
  by (simp add: game_def game_ok_def)

lemma parse_game_ok:
  assumes "game_ok s"
  shows "game_ok (snd (parseAndUpdateState text s))"
proof (cases "exec statusRegex [] text")
  case None
  with assms show ?thesis by (simp add: parse_no_match)
next
  case (Some a)
  then obtain bef m1 m2 after where m: "exec statusRegex [] text = Some (bef, m1, m2, after)"
    by (cases a) auto
  from exec_statusRegex_SomeD [OF m] have "m1 \<noteq> []" "list_all isDigit m1"
    by simp_all
  then have "health_ok (parseInt m1)" by (rule parseInt_digits_ok)
  then show ?thesis
    by (simp add: parse_match [OF m] game_ok_def inventoryItems_ok)
qed

lemma respond_game_ok:
  assumes "game_ok s"
  shows "game_ok (snd (respond r s))"
proof (cases r)
  case SendRejects
  with assms show ?thesis by (simp add: respond_def)
next
  case (Stream chunks e)
  show ?thesis
  proof (cases e)
    case Done
    have "game (snd (respond r s)) = game (snd (parseAndUpdateState (concat chunks) s))"
      unfolding Stream Done by (rule respond_Done_game)
    then have "game_ok (snd (respond r s)) = game_ok (snd (parseAndUpdateState (concat chunks) s))"
      by (rule game_ok_game)
    with parse_game_ok [OF assms] show ?thesis by simp
  next
    case Throws
    have "game (snd (respond r s)) = game s"
      unfolding Stream Throws
      by (simp add: respond_Throws for_await_game createStreamingMessage_game)
    then have "game_ok (snd (respond r s)) = game_ok s"
      by (rule game_ok_game)
    with assms show ?thesis by simp
  qed
qed

lemma submit_game_ok:
  assumes "game_ok s"
  shows "game_ok (snd (submit v r s))"
proof (cases "trim v = []")
  case True
  with assms show ?thesis by (simp add: submit_def)
next
  case False
  let ?s0 = "appendMessage (js ''> '' @ trim v) User (setFormDisabled True s)"
  have "game_ok ?s0 = game_ok s"
    by (rule game_ok_game) (rule prelude_game)
  with assms have "game_ok (snd (respond r ?s0))"
    by (intro respond_game_ok) simp
  with False show ?thesis by (simp add: submit_def Let_def)
qed

lemma submissions_game_ok: "game_ok s \<Longrightarrow> game_ok (submissions turns s)"
proof (induction turns arbitrary: s)
  case Nil
  then show ?case by simp
next
  case (Cons t turns)
  obtain v r where t: "t = (v, r)" by (cases t)
  have "game_ok (if formDisabled s then s else snd (submit v r s))"
    using Cons.prems by (simp add: submit_game_ok)
  then show ?case
    unfolding t by (simp add: Cons.IH)
qed

lemma initial_game_ok: "game_ok initial"
  by (simp add: game_ok_def initial_def health_ok_def)

text \<open>The pieces of a split hold no comma, and trimming adds no character.\<close>

lemma split_from_no_comma:
  "0x2C \<notin> set piece \<Longrightarrow> x \<in> set (split_from piece s) \<Longrightarrow> 0x2C \<notin> set x"
proof (induction s arbitrary: piece)
  case Nil
  then show ?case by simp
next
  case (Cons c cs)
  show ?case
  proof (cases "c = 0x2C")
    case True
    with Cons.prems have "x = piece \<or> x \<in> set (split_from [] cs)" by simp
    then show ?thesis
      using Cons.prems(1) Cons.IH [of "[]"] by auto
  next
    case False
    with Cons.prems have "x \<in> set (split_from (piece @ [c]) cs)" by simp
    moreover have "0x2C \<notin> set (piece @ [c])" using False Cons.prems(1) by simp
    ultimately show ?thesis by (rule Cons.IH [rotated])
  qed
qed

lemma split_comma_no_comma: "x \<in> set (split_comma s) \<Longrightarrow> 0x2C \<notin> set x"
  using split_from_no_comma [of "[]" x s] by (simp add: split_comma_def)

lemma set_trim: "set (trim x) \<subseteq> set x"
proof -
  have "set (trim x) = set (dropWhile isWhiteSpace (rev (dropWhile isWhiteSpace x)))"
    by (simp add: trim_def)
  also have "\<dots> \<subseteq> set (rev (dropWhile isWhiteSpace x))"
    by (rule set_dropWhileD [THEN subsetI]) 
  also have "\<dots> \<subseteq> set x"
    using set_dropWhileD [of _ isWhiteSpace x] by auto
  finally show ?thesis .
qed

lemma inventoryItems_no_comma: "item \<in> set (inventoryItems m2) \<Longrightarrow> 0x2C \<notin> set item"
  using set_trim split_comma_no_comma by (fastforce simp: inventoryItems_def split: if_splits)

section \<open>Splitting and trimming meet their descriptions\<close>

lemma split_from_comma_free:
  "0x2C \<notin> set p \<Longrightarrow> split_from piece p = [piece @ p]"
  by (induction p arbitrary: piece) auto

lemma split_from_piece:
  "0x2C \<notin> set p \<Longrightarrow> split_from piece (p @ 0x2C # rest) = (piece @ p) # split_from [] rest"
  by (induction p arbitrary: piece) auto

lemma split_join:
  assumes "pieces \<noteq> []" "list_all (\<lambda>p. 0x2C \<notin> set p) pieces"
  shows "split_comma (join_comma pieces) = pieces"
  using assms
proof (induction pieces rule: join_comma.induct)
  case 1
  then show ?case by simp
next
  case (2 p)
  then show ?case by (simp add: split_comma_def split_from_comma_free)
next
  case (3 p q ps)
  then have "split_comma (join_comma (q # ps)) = q # ps" by simp
  moreover from 3 have "0x2C \<notin> set p" by simp
  ultimately show ?case
    by (simp add: split_comma_def split_from_piece)
qed

lemma split_from_nonempty: "split_from piece s \<noteq> []"
  by (induction s arbitrary: piece) auto

lemma join_comma_Cons: "ps \<noteq> [] \<Longrightarrow> join_comma (p # ps) = p @ 0x2C # join_comma ps"
  by (cases ps) auto

lemma join_split_from: "join_comma (split_from piece s) = piece @ s"
proof (induction s arbitrary: piece)
  case Nil
  then show ?case by simp
next
  case (Cons c cs)
  show ?case
  proof (cases "c = 0x2C")
    case True
    then show ?thesis
      using Cons [of "[]"] by (simp add: join_comma_Cons split_from_nonempty)
  next
    case False
    then show ?thesis
      using Cons [of "piece @ [c]"] by simp
  qed
qed

lemma join_split: "join_comma (split_comma s) = s"
  by (simp add: split_comma_def join_split_from)

lemma trim_of_core:
  assumes "is_trim_of core x"
  shows "trim x = core"
proof -
  from assms obtain l r where x: "x = l @ core @ r"
    and l: "list_all isWhiteSpace l" and r: "list_all isWhiteSpace r"
    and c: "core = [] \<or> (\<not> isWhiteSpace (hd core) \<and> \<not> isWhiteSpace (last core))"
    unfolding is_trim_of_def by blast
  show ?thesis
  proof (cases "core = []")
    case True
    have d: "dropWhile isWhiteSpace (l @ r) = []"
      using l r by (simp add: list_all_iff)
    show ?thesis
      unfolding trim_def x True append_Nil d by simp
  next
    case False
    with c have h: "\<not> isWhiteSpace (hd core)" and e: "\<not> isWhiteSpace (last core)"
      by simp_all
    have "dropWhile isWhiteSpace (l @ core @ r) = dropWhile isWhiteSpace (core @ r)"
      using l by (simp add: list_all_iff dropWhile_append2)
    also have "\<dots> = core @ r"
      using False h by (cases core) simp_all
    finally have a: "dropWhile isWhiteSpace x = core @ r" using x by simp
    have "dropWhile isWhiteSpace (rev r @ rev core) = dropWhile isWhiteSpace (rev core)"
    proof (rule dropWhile_append2)
      fix c assume "c \<in> set (rev r)"
      then show "isWhiteSpace c" using r by (simp add: list_all_iff)
    qed
    also have "\<dots> = rev core"
      using False e by (cases "rev core") (simp_all add: hd_rev [symmetric])
    finally show ?thesis
      by (simp add: trim_def a)
  qed
qed

lemma trim_is_trim: "is_trim_of (trim x) x"
proof -
  let ?W = isWhiteSpace
  define a where "a = dropWhile ?W x"
  define b where "b = dropWhile ?W (rev a)"
  have t: "trim x = rev b" by (simp add: trim_def a_def b_def)
  have x: "x = takeWhile ?W x @ a" by (simp add: a_def)
  have "rev a = takeWhile ?W (rev a) @ b" by (simp add: b_def)
  then have "rev (rev a) = rev (takeWhile ?W (rev a) @ b)" by simp
  then have a: "a = rev b @ rev (takeWhile ?W (rev a))" by simp
  have l: "list_all ?W (takeWhile ?W x)"
    by (simp add: list_all_iff) (meson set_takeWhileD)
  have r: "list_all ?W (rev (takeWhile ?W (rev a)))"
    by (simp add: list_all_iff) (meson set_takeWhileD)
  have c: "rev b = [] \<or> (\<not> ?W (hd (rev b)) \<and> \<not> ?W (last (rev b)))"
  proof (cases "b = []")
    case True
    then show ?thesis by simp
  next
    case False
    then have hb: "\<not> ?W (hd b)" unfolding b_def by (rule hd_dropWhile)
    from False have "rev a \<noteq> []" by (auto simp: b_def)
    then have "a \<noteq> []" by simp
    then have "\<not> ?W (hd a)" unfolding a_def by (rule hd_dropWhile)
    moreover have "hd a = hd (rev b)"
      using a False by (metis hd_append2 rev_is_Nil_conv)
    ultimately show ?thesis
      using hb False by (simp add: last_rev)
  qed
  have "x = takeWhile ?W x @ rev b @ rev (takeWhile ?W (rev a))"
    using x a by simp
  with l r c show ?thesis
    unfolding is_trim_of_def t by blast
qed

lemma trims_of_cores: "list_all2 is_trim_of cores pieces \<Longrightarrow> map trim pieces = cores"
  by (induction rule: list_all2_induct) (simp_all add: trim_of_core)

section \<open>The claims\<close>

subsection \<open>C1\<close>

text \<open>
  C1, as stated, fails. A stream begins with the chunk \<^verbatim>\<open>Hi [STATUS]HEA\<close>; after
  that chunk the text node of the streaming paragraph holds the whole chunk,
  the start sentinel and the partial marker included.
\<close>

theorem partial_marker_is_shown_counterexample:
  "nodeValue (gameOutput (snd (for_await 0 (take 1 [js ''Hi [STATUS]HEA'', js ''LTH:90,INVENTORY:[/STATUS]''])
      ([], snd (createStreamingMessage initial)))) ! 0) = js ''Hi [STATUS]HEA''
   \<and> sublist START (js ''Hi [STATUS]HEA'')"
proof -
  have "exec streamRegex [] (js ''Hi [STATUS]HEA'') = None"
    by (simp add: pattern_eval)
  then have "trim (replace_streamRegex ([] @ js ''Hi [STATUS]HEA'')) = js ''Hi [STATUS]HEA''"
    by (simp add: replace_streamRegex_def string_eval)
  moreover have "sublist START (js ''Hi [STATUS]HEA'')"
    by (simp add: START_def js_def sublist_code)
  ultimately show ?thesis
    by (simp add: on_chunk_shown createStreamingMessage_def initial_def)
qed

text \<open>
  C1, amended. After each chunk of a stream (the first \<open>n\<close> chunks, \<open>n\<close> at
  least one) the text node holds the accumulated text with one span removed,
  trimmed: the span from the first \<^verbatim>\<open>[STATUS]\<close> to the last \<^verbatim>\<open>[/STATUS]\<close> after
  it. While the accumulated text has no start sentinel followed somewhere by an
  end sentinel, nothing is removed: the whole accumulated text is shown, trimmed.

  In the statement the accumulated text is \<open>pre @ START @ mid @ END @ post\<close>;
  that this start sentinel is the first says that none begins inside \<open>pre\<close>
  (none lies in \<open>pre\<close> followed by all but the last character of the
  sentinel), and that this end sentinel is the last says that none begins after
  its first character.
\<close>

theorem mid_stream_display:
  assumes "el < length (gameOutput s)" and "0 < n" and "n \<le> length chunks"
  shows "(\<not> (\<exists>pre mid post. concat (take n chunks) = pre @ START @ mid @ END @ post) \<longrightarrow>
            nodeValue (gameOutput (snd (for_await el (take n chunks) ([], s))) ! el)
              = trim (concat (take n chunks)))
       \<and> (\<forall>pre mid post.
            concat (take n chunks) = pre @ START @ mid @ END @ post
            \<and> \<not> sublist START (pre @ butlast START) \<and> \<not> sublist END (tl END @ post) \<longrightarrow>
            nodeValue (gameOutput (snd (for_await el (take n chunks) ([], s))) ! el)
              = trim (pre @ post))"
proof -
  let ?acc = "concat (take n chunks)"
  have "take n chunks \<noteq> []"
    using assms(2,3) by (cases chunks) auto
  with assms(1) have shown:
    "nodeValue (gameOutput (snd (for_await el (take n chunks) ([], s))) ! el)
       = trim (replace_streamRegex ?acc)"
    using for_await_shown [of el "([], s)" "take n chunks"] by simp
  have a: "replace_streamRegex ?acc = ?acc"
    if "\<not> (\<exists>pre mid post. ?acc = pre @ START @ mid @ END @ post)"
    using exec_streamRegex_None [OF that] by (simp add: replace_streamRegex_def)
  have b: "replace_streamRegex ?acc = pre @ post"
    if "?acc = pre @ START @ mid @ END @ post" "\<not> sublist START (pre @ butlast START)"
      "\<not> sublist END (tl END @ post)" for pre mid post
    using exec_streamRegex_first_last [OF that(2,3), of mid] that(1)
    by (simp add: replace_streamRegex_def)
  show ?thesis
  proof (intro conjI impI allI)
    assume "\<not> (\<exists>pre mid post. ?acc = pre @ START @ mid @ END @ post)"
    from a [OF this] show
      "nodeValue (gameOutput (snd (for_await el (take n chunks) ([], s))) ! el) = trim ?acc"
      by (simp only: shown)
  next
    fix pre mid post
    assume "?acc = pre @ START @ mid @ END @ post
            \<and> \<not> sublist START (pre @ butlast START) \<and> \<not> sublist END (tl END @ post)"
    then have "replace_streamRegex ?acc = pre @ post"
      using b [of pre mid post] by blast
    then show
      "nodeValue (gameOutput (snd (for_await el (take n chunks) ([], s))) ! el) = trim (pre @ post)"
      by (simp only: shown)
  qed
qed

theorem mid_stream_display_witness:
  "nodeValue (gameOutput (snd (for_await 0 (take 1 [js ''Hi [STATUS]HEA'', js ''LTH:90,INVENTORY:[/STATUS] ''])
      ([], snd (createStreamingMessage initial)))) ! 0) = js ''Hi [STATUS]HEA''
   \<and> nodeValue (gameOutput (snd (for_await 0 (take 2 [js ''Hi [STATUS]HEA'', js ''LTH:90,INVENTORY:[/STATUS] ''])
      ([], snd (createStreamingMessage initial)))) ! 0) = js ''Hi''"
proof -
  let ?chunks = "[js ''Hi [STATUS]HEA'', js ''LTH:90,INVENTORY:[/STATUS] '']"
  let ?s = "snd (createStreamingMessage initial)"
  have el: "0 < length (gameOutput ?s)"
    by (simp add: createStreamingMessage_def)
  have c1: "concat (take 1 ?chunks) = js ''Hi [STATUS]HEA''"
    by simp
  have c2: "concat (take 2 ?chunks) = js ''Hi '' @ START @ js ''HEALTH:90,INVENTORY:'' @ END @ js '' ''"
    by (simp add: START_def END_def js_def)
  have "\<not> sublist END (js ''Hi [STATUS]HEA'')"
    by (simp add: END_def js_def sublist_code)
  then have no: "\<not> (\<exists>pre mid post. concat (take 1 ?chunks) = pre @ START @ mid @ END @ post)"
    unfolding c1 sublist_def by (metis append.assoc)
  have first: "\<not> sublist START (js ''Hi '' @ butlast START)"
    by (simp add: START_def js_def sublist_code)
  have last: "\<not> sublist END (tl END @ js '' '')"
    by (simp add: END_def js_def sublist_code)
  have t1: "trim (concat (take 1 ?chunks)) = js ''Hi [STATUS]HEA''"
    by (simp add: string_eval)
  have t2: "trim (js ''Hi '' @ js '' '') = js ''Hi''"
    by (simp add: string_eval)
  have one: "(0::nat) < 1" "1 \<le> length ?chunks"
    by simp_all
  have two: "(0::nat) < 2" "2 \<le> length ?chunks"
    by simp_all
  from mid_stream_display [OF el one, THEN conjunct1, rule_format, OF no]
  have "nodeValue (gameOutput (snd (for_await 0 (take 1 ?chunks) ([], ?s))) ! 0) = js ''Hi [STATUS]HEA''"
    by (simp only: t1)
  moreover
  from mid_stream_display [OF el two, THEN conjunct2, rule_format,
      OF conjI [OF c2 conjI [OF first last]]]
  have "nodeValue (gameOutput (snd (for_await 0 (take 2 ?chunks) ([], ?s))) ! 0) = js ''Hi''"
    by (simp only: t2)
  ultimately show ?thesis by blast
qed

subsection \<open>C2\<close>

text \<open>
  C2. For the completed text \<^verbatim>\<open>You enter a cave.\<close>, a line feed, then
  \<^verbatim>\<open>[STATUS]HEALTH:75,INVENTORY:torch[/STATUS]\<close>, the returned narrative is
  \<^verbatim>\<open>You enter a cave.\<close> and the game state left behind is health 75 with the
  one-item inventory \<^verbatim>\<open>torch\<close>, whatever the session was before.
\<close>

theorem well_formed_round_trip:
  "parseAndUpdateState
     (js ''You enter a cave.\<newline>[STATUS]HEALTH:75,INVENTORY:torch[/STATUS]'') s
   = (js ''You enter a cave.'',
      s\<lparr>playerHealth := Finite 75, playerInventory := [js ''torch'']\<rparr>)"
proof -
  have m: "exec statusRegex []
             (js ''You enter a cave.\<newline>[STATUS]HEALTH:75,INVENTORY:torch[/STATUS]'')
           = Some (js ''You enter a cave.\<newline>'', js ''75'', js ''torch'', [])"
    by (simp add: pattern_eval)
  have h: "parseInt (js ''75'') = Finite 75"
    by (simp add: parseInt_def trimStart_def isWhiteSpace_def isDigit_def js_def
        digits_value_def number_of_int_def Let_def)
  have i: "inventoryItems (js ''torch'') = [js ''torch'']"
    by (simp add: inventoryItems_def string_eval)
  have t: "trim (js ''You enter a cave.\<newline>'' @ []) = js ''You enter a cave.''"
    by (simp add: string_eval)
  show ?thesis
    by (simp only: parse_match [OF m] h i t)
qed

subsection \<open>C3\<close>

text \<open>
  C3, as stated, fails: for the text \<^verbatim>\<open>A shadow looms.\<close>, a line feed, then
  \<^verbatim>\<open>[STATUS]HEALTH:5\<close>, the returned narrative is the whole text, the start
  sentinel and the partial marker included, and not \<^verbatim>\<open>A shadow looms.\<close>
\<close>

theorem truncated_marker_counterexample:
  "fst (parseAndUpdateState (js ''A shadow looms.\<newline>[STATUS]HEALTH:5'') initial)
     = js ''A shadow looms.\<newline>[STATUS]HEALTH:5''
   \<and> fst (parseAndUpdateState (js ''A shadow looms.\<newline>[STATUS]HEALTH:5'') initial)
     \<noteq> js ''A shadow looms.''"
proof -
  have "exec statusRegex [] (js ''A shadow looms.\<newline>[STATUS]HEALTH:5'') = None"
    by (simp add: pattern_eval)
  from parse_no_match [OF this, of initial]
  have "fst (parseAndUpdateState (js ''A shadow looms.\<newline>[STATUS]HEALTH:5'') initial)
          = trim (js ''A shadow looms.\<newline>[STATUS]HEALTH:5'')"
    by simp
  also have "\<dots> = js ''A shadow looms.\<newline>[STATUS]HEALTH:5''"
    by (simp add: string_eval)
  finally show ?thesis
    by (simp add: js_def)
qed

text \<open>
  C3, amended. For every completed text that contains the start sentinel and no
  complete marker, \<^verbatim>\<open>parseAndUpdateState\<close> returns the whole text trimmed (the
  sentinel and what follows it stay in the narrative) and leaves the session,
  and so the game state, as it was.
\<close>

theorem incomplete_marker_keeps_text_and_state:
  assumes "sublist START text" and "\<not> has_complete_marker text"
  shows "parseAndUpdateState text s = (trim text, s)"
proof -
  from assms(2) have "exec statusRegex [] text = None"
    using exec_statusRegex_iff [of "text"] by blast
  then show ?thesis by (rule parse_no_match)
qed

theorem incomplete_marker_keeps_text_and_state_witness:
  "sublist START (js ''A shadow looms.\<newline>[STATUS]HEALTH:5'')
   \<and> \<not> has_complete_marker (js ''A shadow looms.\<newline>[STATUS]HEALTH:5'')
   \<and> parseAndUpdateState (js ''A shadow looms.\<newline>[STATUS]HEALTH:5'') initial
       = (js ''A shadow looms.\<newline>[STATUS]HEALTH:5'', initial)"
proof -
  have a: "sublist START (js ''A shadow looms.\<newline>[STATUS]HEALTH:5'')"
    by (simp add: START_def js_def sublist_code)
  have "exec statusRegex [] (js ''A shadow looms.\<newline>[STATUS]HEALTH:5'') = None"
    by (simp add: pattern_eval)
  then have b: "\<not> has_complete_marker (js ''A shadow looms.\<newline>[STATUS]HEALTH:5'')"
    using exec_statusRegex_iff [of "js ''A shadow looms.\<newline>[STATUS]HEALTH:5''"] by blast
  have "trim (js ''A shadow looms.\<newline>[STATUS]HEALTH:5'')
          = js ''A shadow looms.\<newline>[STATUS]HEALTH:5''"
    by (simp add: string_eval)
  with a b incomplete_marker_keeps_text_and_state [OF a b, of initial] show ?thesis
    by simp
qed

subsection \<open>C4\<close>

text \<open>
  C4. In one completed turn of the submit listener the game state is not changed
  before the stream or by any chunk of it (it is the state before the turn after
  the first \<open>n\<close> chunks, for every \<open>n\<close>), and after the turn it is what the one
  call of \<^verbatim>\<open>parseAndUpdateState\<close> on the whole text makes of the state before
  the turn.
\<close>

theorem game_state_changes_only_in_final_step:
  assumes "trim v \<noteq> []"
  shows "(let s0 = appendMessage (js ''> '' @ trim v) User (setFormDisabled True s);
              el = fst (createStreamingMessage s0);
              s1 = snd (createStreamingMessage s0)
          in game s0 = game s \<and> game s1 = game s
             \<and> (\<forall>n. game (snd (for_await el (take n chunks) ([], s1))) = game s))
         \<and> game (snd (submit v (Stream chunks Done) s))
             = game (snd (parseAndUpdateState (concat chunks) s))"
proof -
  let ?s0 = "appendMessage (js ''> '' @ trim v) User (setFormDisabled True s)"
  have g0: "game ?s0 = game s"
    by (rule prelude_game)
  have g1: "game (snd (createStreamingMessage ?s0)) = game s"
    by (simp only: createStreamingMessage_game g0)
  have loop: "game (snd (for_await el (take n chunks) ([], snd (createStreamingMessage ?s0)))) = game s"
    for el n
    using for_await_game [of el "take n chunks" "([], snd (createStreamingMessage ?s0))"] g1
    by simp
  have "game (snd (submit v (Stream chunks Done) s)) = game (snd (respond (Stream chunks Done) ?s0))"
    using assms by (simp add: submit_def Let_def)
  also have "\<dots> = game (snd (parseAndUpdateState (concat chunks) ?s0))"
    by (rule respond_Done_game)
  also have "\<dots> = game (snd (parseAndUpdateState (concat chunks) s))"
    using g0 by (simp add: parse_game split: option.splits)
  finally have fin: "game (snd (submit v (Stream chunks Done) s))
                       = game (snd (parseAndUpdateState (concat chunks) s))" .
  show ?thesis
    unfolding Let_def using g0 g1 loop fin by blast
qed

theorem game_state_changes_only_in_final_step_witness:
  "game (snd (for_await 1 (take 1 [js ''Ouch. [STATUS]HEALTH:80,'', js ''INVENTORY:torch[/STATUS]''])
      ([], snd (createStreamingMessage
                 (appendMessage (js ''> '' @ trim (js '' look '')) User
                    (setFormDisabled True initial))))))
     = game initial
   \<and> game (snd (submit (js '' look '')
        (Stream [js ''Ouch. [STATUS]HEALTH:80,'', js ''INVENTORY:torch[/STATUS]''] Done) initial))
     = (Finite 80, [js ''torch''])"
proof -
  let ?chunks = "[js ''Ouch. [STATUS]HEALTH:80,'', js ''INVENTORY:torch[/STATUS]'']"
  let ?s0 = "appendMessage (js ''> '' @ trim (js '' look '')) User (setFormDisabled True initial)"
  have ne: "trim (js '' look '') \<noteq> []"
    by (simp add: string_eval)
  have m: "exec statusRegex [] (concat ?chunks) = Some (js ''Ouch. '', js ''80'', js ''torch'', [])"
    by (simp add: pattern_eval)
  have h: "parseInt (js ''80'') = Finite 80"
    by (simp add: parseInt_def trimStart_def isWhiteSpace_def isDigit_def js_def
        digits_value_def number_of_int_def Let_def)
  have i: "inventoryItems (js ''torch'') = [js ''torch'']"
    by (simp add: inventoryItems_def string_eval)
  have p: "game (snd (parseAndUpdateState (concat ?chunks) initial)) = (Finite 80, [js ''torch''])"
    by (simp only: parse_game m h i option.case prod.case)
  have el: "fst (createStreamingMessage ?s0) = 1"
    by (simp add: createStreamingMessage_def appendMessage_def setFormDisabled_def initial_def)
  note inst = game_state_changes_only_in_final_step [OF ne, of initial ?chunks, unfolded Let_def el p]
  from inst have "game (snd (for_await 1 (take 1 ?chunks) ([], snd (createStreamingMessage ?s0))))
                   = game initial"
    by blast
  moreover from inst have "game (snd (submit (js '' look '') (Stream ?chunks Done) initial))
                   = (Finite 80, [js ''torch''])"
    by blast
  ultimately show ?thesis by blast
qed

subsection \<open>C5\<close>

text \<open>
  C5, as stated, fails. In a session whose first prompt is answered by a stream
  that throws, the form is still disabled afterwards, and a second submission
  changes nothing: the session with it is the session without it.
\<close>

theorem failed_stream_counterexample:
  "formDisabled (play (Stream [js ''You wake in a cell.''] Done)
      [(js ''look'', Stream [js ''A shadow looms.\<newline>[STATUS]HEALTH:5''] Throws)])
   \<and> play (Stream [js ''You wake in a cell.''] Done)
      [(js ''look'', Stream [js ''A shadow looms.\<newline>[STATUS]HEALTH:5''] Throws),
       (js ''run'', Stream [js ''You flee.''] Done)]
     = play (Stream [js ''You wake in a cell.''] Done)
      [(js ''look'', Stream [js ''A shadow looms.\<newline>[STATUS]HEALTH:5''] Throws)]"
proof -
  let ?s1 = "snd (startGame (Stream [js ''You wake in a cell.''] Done) initial)"
  let ?r = "Stream [js ''A shadow looms.\<newline>[STATUS]HEALTH:5''] Throws"
  have en: "\<not> formDisabled ?s1"
    by (simp add: startGame_def respond_def createStreamingMessage_def Let_def
        setFormDisabled_def split: prod.splits)
  have ne: "trim (js ''look'') \<noteq> []"
    by (simp add: string_eval)
  have "formDisabled (snd (submit (js ''look'') ?r ?s1))"
    using ne by (simp only: submit_def Let_def respond_Throws for_await_disabled
        createStreamingMessage_simps prelude_disabled if_False snd_conv)
  with en show ?thesis
    by (simp add: play_def submissions_disabled)
qed

text \<open>
  C5, amended. When the stream of a turn throws, the listener is rejected, the
  game state is the one before the turn, the streaming paragraph keeps the
  display of the last chunk received, and the form stays disabled: no later
  submission runs. When \<^verbatim>\<open>sendMessageStream\<close> itself rejects, the listener is
  rejected too, with the game state unchanged and the form disabled.
\<close>

theorem failed_stream_keeps_display_and_state:
  assumes "trim v \<noteq> []"
  shows "fst (submit v (Stream chunks Throws) s) = Rejected
       \<and> game (snd (submit v (Stream chunks Throws) s)) = game s
       \<and> (chunks \<noteq> [] \<longrightarrow>
            nodeValue (gameOutput (snd (submit v (Stream chunks Throws) s))
                         ! Suc (length (gameOutput s)))
              = trim (replace_streamRegex (concat chunks)))
       \<and> formDisabled (snd (submit v (Stream chunks Throws) s))
       \<and> submissions turns (snd (submit v (Stream chunks Throws) s))
            = snd (submit v (Stream chunks Throws) s)
       \<and> fst (submit v SendRejects s) = Rejected
       \<and> game (snd (submit v SendRejects s)) = game s
       \<and> formDisabled (snd (submit v SendRejects s))"
proof -
  have rejects: "fst (submit v SendRejects s) = Rejected
       \<and> game (snd (submit v SendRejects s)) = game s
       \<and> formDisabled (snd (submit v SendRejects s))"
    using assms by (simp add: submit_def Let_def respond_def prelude_game prelude_disabled)
  let ?s0 = "appendMessage (js ''> '' @ trim v) User (setFormDisabled True s)"
  let ?el = "length (gameOutput ?s0)"
  let ?s' = "snd (for_await ?el chunks ([], snd (createStreamingMessage ?s0)))"
  have r: "submit v (Stream chunks Throws) s = (Rejected, ?s')"
    using assms by (simp add: submit_def Let_def respond_Throws)
  have el: "?el = Suc (length (gameOutput s))"
    by (rule prelude_length)
  have g: "game ?s' = game s"
    by (simp add: for_await_game createStreamingMessage_game prelude_game)
  have d: "formDisabled ?s'"
    by (simp add: for_await_disabled createStreamingMessage_simps prelude_disabled)
  have shown: "nodeValue (gameOutput ?s' ! ?el) = trim (replace_streamRegex (concat chunks))"
    if "chunks \<noteq> []"
    using for_await_shown [of ?el "([], snd (createStreamingMessage ?s0))" chunks] that
    by (simp add: createStreamingMessage_simps)
  show ?thesis
    unfolding r using g d shown el submissions_disabled [OF d, of turns] rejects
    by simp
qed

theorem failed_stream_keeps_display_and_state_witness:
  "fst (submit (js ''look'') (Stream [js ''A shadow looms.\<newline>[STATUS]HEALTH:5''] Throws) initial)
     = Rejected
   \<and> game (snd (submit (js ''look'')
        (Stream [js ''A shadow looms.\<newline>[STATUS]HEALTH:5''] Throws) initial)) = game initial
   \<and> nodeValue (gameOutput (snd (submit (js ''look'')
        (Stream [js ''A shadow looms.\<newline>[STATUS]HEALTH:5''] Throws) initial)) ! 1)
     = js ''A shadow looms.\<newline>[STATUS]HEALTH:5''
   \<and> formDisabled (snd (submit (js ''look'')
        (Stream [js ''A shadow looms.\<newline>[STATUS]HEALTH:5''] Throws) initial))"
proof -
  have ne: "trim (js ''look'') \<noteq> []"
    by (simp add: string_eval)
  have "exec streamRegex [] (js ''A shadow looms.\<newline>[STATUS]HEALTH:5'') = None"
    by (simp add: pattern_eval)
  then have t: "trim (replace_streamRegex (concat [js ''A shadow looms.\<newline>[STATUS]HEALTH:5'']))
                  = js ''A shadow looms.\<newline>[STATUS]HEALTH:5''"
    by (simp add: replace_streamRegex_def string_eval)
  have l: "Suc (length (gameOutput initial)) = 1"
    by (simp add: initial_def)
  from failed_stream_keeps_display_and_state
         [OF ne, of "[js ''A shadow looms.\<newline>[STATUS]HEALTH:5'']" initial "[]"]
  show ?thesis
    unfolding t l by simp
qed

subsection \<open>C6\<close>

text \<open>
  C6. When the pattern matches, the inventory left behind is the second capture
  split at the commas, each piece trimmed, the empty pieces dropped; for an
  empty capture it is the empty list, not a list holding one empty string.
  No entry is empty, untrimmed or holds a comma.

  The last part says it without the functions of the code: however the capture
  is written as comma-free pieces with commas between them, and whatever the
  pieces are without the white space around them, the inventory is those cores,
  in order, without the empty ones.
\<close>

theorem inventory_split_trim_drop_empty:
  assumes "exec statusRegex [] text = Some (bef, m1, m2, after)"
  shows "playerInventory (snd (parseAndUpdateState text s))
           = filter (\<lambda>item. item \<noteq> []) (map trim (split_comma m2))
         \<and> (m2 = [] \<longrightarrow> playerInventory (snd (parseAndUpdateState text s)) = [])
         \<and> list_all (\<lambda>item. item \<noteq> [] \<and> trim item = item \<and> 0x2C \<notin> set item)
              (playerInventory (snd (parseAndUpdateState text s)))
         \<and> (\<forall>pieces cores.
               m2 = join_comma pieces \<and> pieces \<noteq> []
               \<and> list_all (\<lambda>p. 0x2C \<notin> set p) pieces
               \<and> list_all2 is_trim_of cores pieces \<longrightarrow>
               playerInventory (snd (parseAndUpdateState text s))
                 = filter (\<lambda>item. item \<noteq> []) cores)"
proof -
  have items: "inventoryItems m2 = filter (\<lambda>item. item \<noteq> []) (map trim (split_comma m2))"
    by (simp add: inventoryItems_def trim_def split_comma_def)
  have empty: "inventoryItems [] = []"
    by (simp add: inventoryItems_def)
  have ok: "list_all (\<lambda>item. item \<noteq> [] \<and> trim item = item \<and> 0x2C \<notin> set item)
              (inventoryItems m2)"
    using inventoryItems_ok [of m2] inventoryItems_no_comma [of _ m2]
    by (simp add: list_all_iff item_ok_def)
  have spec: "inventoryItems m2 = filter (\<lambda>item. item \<noteq> []) cores"
    if "m2 = join_comma pieces" "pieces \<noteq> []" "list_all (\<lambda>p. 0x2C \<notin> set p) pieces"
      "list_all2 is_trim_of cores pieces" for pieces cores
  proof -
    have "split_comma m2 = pieces"
      unfolding that(1) using that(2,3) by (rule split_join)
    moreover have "map trim pieces = cores"
      using that(4) by (rule trims_of_cores)
    ultimately show ?thesis
      by (simp only: items)
  qed
  have inv: "playerInventory (snd (parseAndUpdateState text s)) = inventoryItems m2"
    by (simp add: parse_match [OF assms])
  show ?thesis
    unfolding inv using items empty ok spec by blast
qed

theorem inventory_split_trim_drop_empty_witness:
  "playerInventory (snd (parseAndUpdateState (js ''[STATUS]HEALTH:100,INVENTORY:[/STATUS]'')
      (initial\<lparr>playerInventory := [js ''torch'']\<rparr>))) = []
   \<and> playerInventory (snd (parseAndUpdateState
        (js ''Ok.[STATUS]HEALTH:90,INVENTORY: , ,sword ,, rusty key ,[/STATUS]'') initial))
     = [js ''sword'', js ''rusty key'']"
proof -
  let ?P = "[js '' '', js '' '', js ''sword '', [], js '' rusty key '', []]"
  let ?C = "[[], [], js ''sword'', [], js ''rusty key'', []]"
  have m0: "exec statusRegex [] (js ''[STATUS]HEALTH:100,INVENTORY:[/STATUS]'')
           = Some ([], js ''100'', [], [])"
    by (simp add: pattern_eval)
  have m: "exec statusRegex []
             (js ''Ok.[STATUS]HEALTH:90,INVENTORY: , ,sword ,, rusty key ,[/STATUS]'')
           = Some (js ''Ok.'', js ''90'', js '' , ,sword ,, rusty key ,'', [])"
    by (simp add: pattern_eval)
  have j: "js '' , ,sword ,, rusty key ,'' = join_comma ?P"
    by (simp add: js_def)
  have ne: "?P \<noteq> []"
    by simp
  have cf: "list_all (\<lambda>p. 0x2C \<notin> set p) ?P"
    by (simp add: js_def)
  have "map trim ?P = ?C"
    by (simp add: trim_def isWhiteSpace_def js_def)
  moreover have "list_all2 is_trim_of (map trim ?P) ?P"
    by (simp add: trim_is_trim)
  ultimately have tr: "list_all2 is_trim_of ?C ?P"
    by (simp only:)
  have f: "filter (\<lambda>item. item \<noteq> []) ?C = [js ''sword'', js ''rusty key'']"
    by (simp add: js_def)
  from inventory_split_trim_drop_empty [OF m0, of "initial\<lparr>playerInventory := [js ''torch'']\<rparr>"]
  have "playerInventory (snd (parseAndUpdateState (js ''[STATUS]HEALTH:100,INVENTORY:[/STATUS]'')
      (initial\<lparr>playerInventory := [js ''torch'']\<rparr>))) = []"
    by blast
  moreover
  from inventory_split_trim_drop_empty [OF m, of initial]
  have "\<forall>pieces cores.
          js '' , ,sword ,, rusty key ,'' = join_comma pieces \<and> pieces \<noteq> []
          \<and> list_all (\<lambda>p. 0x2C \<notin> set p) pieces \<and> list_all2 is_trim_of cores pieces \<longrightarrow>
          playerInventory (snd (parseAndUpdateState
            (js ''Ok.[STATUS]HEALTH:90,INVENTORY: , ,sword ,, rusty key ,[/STATUS]'') initial))
            = filter (\<lambda>item. item \<noteq> []) cores"
    by blast
  from this [rule_format, of ?P ?C, OF conjI [OF j conjI [OF ne conjI [OF cf tr]]]]
  have "playerInventory (snd (parseAndUpdateState
          (js ''Ok.[STATUS]HEALTH:90,INVENTORY: , ,sword ,, rusty key ,[/STATUS]'') initial))
          = [js ''sword'', js ''rusty key'']"
    by (simp only: f)
  ultimately show ?thesis by blast
qed

subsection \<open>C7\<close>

text \<open>
  C7. For every completed text that does not contain the start sentinel
  \<^verbatim>\<open>[STATUS]\<close>, \<^verbatim>\<open>parseAndUpdateState\<close> returns the text trimmed of surrounding
  white space as the narrative and leaves the session, and so the game state,
  as it was.
\<close>

theorem no_sentinel_round_trip:
  assumes "\<not> sublist START text"
  shows "parseAndUpdateState text s = (trim text, s)"
proof -
  have "exec statusRegex [] text = None"
  proof (cases "exec statusRegex [] text")
    case None
    then show ?thesis .
  next
    case (Some a)
    then obtain bef m1 m2 after where "exec statusRegex [] text = Some (bef, m1, m2, after)"
      by (cases a) auto
    from exec_statusRegex_sublist [OF this] assms show ?thesis by simp
  qed
  then show ?thesis by (rule parse_no_match)
qed

theorem no_sentinel_round_trip_witness:
  "\<not> sublist START (js ''  You see a door.\<newline>'')
   \<and> parseAndUpdateState (js ''  You see a door.\<newline>'') initial = (js ''You see a door.'', initial)"
proof -
  have h: "\<not> sublist START (js ''  You see a door.\<newline>'')"
    by (simp add: START_def js_def sublist_code)
  have "trim (js ''  You see a door.\<newline>'') = js ''You see a door.''"
    by (simp add: trim_def js_def isWhiteSpace_def)
  with h no_sentinel_round_trip [OF h, of initial] show ?thesis by simp
qed

subsection \<open>C8\<close>

text \<open>
  C8, as stated, fails: in \<^verbatim>\<open>[STATUS]HEALTH:abc,INVENTORY:sword[/STATUS]\<close> the health
  field is not a number and the inventory field is well formed, yet the
  inventory is not set to \<^verbatim>\<open>sword\<close>: nothing is changed.
\<close>

theorem unparsable_health_counterexample:
  "snd (parseAndUpdateState (js ''[STATUS]HEALTH:abc,INVENTORY:sword[/STATUS]'') initial) = initial
   \<and> playerInventory
        (snd (parseAndUpdateState (js ''[STATUS]HEALTH:abc,INVENTORY:sword[/STATUS]'') initial))
      \<noteq> [js ''sword'']"
proof -
  have "exec statusRegex [] (js ''[STATUS]HEALTH:abc,INVENTORY:sword[/STATUS]'') = None"
    by (simp add: pattern_eval)
  from parse_no_match [OF this, of initial] show ?thesis
    by (simp add: initial_def)
qed

text \<open>
  C8, amended. When no occurrence of \<^verbatim>\<open>[STATUS]HEALTH:\<close> in the completed text is
  followed by a decimal digit, the pattern does not match: health and inventory
  both keep their values, the text is returned trimmed with the marker in it,
  and the function returns normally.
\<close>

theorem non_digit_health_changes_nothing:
  assumes "\<forall>pre rest. text = pre @ js ''[STATUS]HEALTH:'' @ rest
             \<longrightarrow> rest = [] \<or> \<not> isDigit (hd rest)"
  shows "parseAndUpdateState text s = (trim text, s)"
proof -
  have "exec statusRegex [] text = None"
  proof (cases "exec statusRegex [] text")
    case None
    then show ?thesis .
  next
    case (Some a)
    then obtain bef m1 m2 after where "exec statusRegex [] text = Some (bef, m1, m2, after)"
      by (cases a) auto
    from exec_statusRegex_SomeD [OF this]
    have t: "text = bef @ js ''[STATUS]HEALTH:'' @ (m1 @ js '',INVENTORY:'' @ m2 @ END @ after)"
      and m1: "m1 \<noteq> []" "list_all isDigit m1"
      by simp_all
    from m1 obtain c cs where "m1 = c # cs" "isDigit c"
      by (cases m1) auto
    then have "m1 @ js '',INVENTORY:'' @ m2 @ END @ after \<noteq> []"
      and "isDigit (hd (m1 @ js '',INVENTORY:'' @ m2 @ END @ after))"
      by simp_all
    with assms [rule_format, OF t] show ?thesis by blast
  qed
  then show ?thesis by (rule parse_no_match)
qed

theorem non_digit_health_changes_nothing_witness:
  "parseAndUpdateState (js ''[STATUS]HEALTH:abc,INVENTORY:sword[/STATUS]'') initial
     = (js ''[STATUS]HEALTH:abc,INVENTORY:sword[/STATUS]'', initial)"
proof -
  let ?T = "js ''[STATUS]HEALTH:abc,INVENTORY:sword[/STATUS]''"
  let ?m = "lit (js ''[STATUS]HEALTH:'')
              (\<lambda>rest. if rest = [] \<or> \<not> isDigit (hd rest) then None else Some ())"
  have "exec ?m [] ?T = None"
    by (simp add: js_def isDigit_def)
  then have n: "\<forall>u v. ?T = u @ v \<longrightarrow> ?m v = None"
    by (simp only: exec_None_iff)
  have h: "\<forall>pre rest. ?T = pre @ js ''[STATUS]HEALTH:'' @ rest
             \<longrightarrow> rest = [] \<or> \<not> isDigit (hd rest)"
  proof (intro allI impI)
    fix pre rest assume "?T = pre @ js ''[STATUS]HEALTH:'' @ rest"
    with n have "?m (js ''[STATUS]HEALTH:'' @ rest) = None" by blast
    then have "(if rest = [] \<or> \<not> isDigit (hd rest) then None else Some ()) = None"
      by (simp only: lit_append)
    then show "rest = [] \<or> \<not> isDigit (hd rest)"
      by (simp split: if_splits)
  qed
  have "trim ?T = ?T"
    by (simp add: string_eval)
  with non_digit_health_changes_nothing [OF h, of initial] show ?thesis
    by simp
qed

subsection \<open>C9\<close>

text \<open>
  C9, as stated, fails. The first reply of a session carries a marker whose
  health field is a 1 followed by 309 zeros; \<^verbatim>\<open>parseInt\<close> rounds it to positive
  infinity, which becomes the health: not an integer.
\<close>

theorem huge_health_counterexample:
  "playerHealth (play (Stream [js (''[STATUS]HEALTH:1'' @ replicate 309 CHR ''0''
                                   @ '',INVENTORY:[/STATUS]'')] Done) [])
     = PosInfinity"
proof -
  let ?D = "js (''1'' @ replicate 309 CHR ''0'')"
  let ?T = "js (''[STATUS]HEALTH:1'' @ replicate 309 CHR ''0'' @ '',INVENTORY:[/STATUS]'')"
  have m: "exec statusRegex [] (concat [?T]) = Some ([], ?D, [], [])"
    by code_simp
  have h: "parseInt ?D = PosInfinity"
    by code_simp
  have "game (play (Stream [?T] Done) []) = game (snd (parseAndUpdateState (concat [?T]) (setFormDisabled True initial)))"
    by (simp only: play_def startGame_def submissions.simps respond_Done_game)
  also have "\<dots> = (PosInfinity, inventoryItems [])"
    by (simp only: parse_game m h option.case prod.case)
  finally show ?thesis
    by (simp add: game_def)
qed

text \<open>
  C9, amended. In every state a session reaches (after \<^verbatim>\<open>startGame\<close> and after
  any number of submissions, whatever the service replies), the health is a
  non-negative integer or positive infinity, never NaN and never negative, and
  every inventory entry is a non-empty trimmed string; the initial state has
  health 100 and no inventory. A text without a complete marker leaves the
  session as it was.
\<close>

theorem game_state_invariant:
  "game initial = (Finite 100, [])
   \<and> game_ok (play r0 turns)
   \<and> (\<not> has_complete_marker text \<longrightarrow> snd (parseAndUpdateState text s) = s)"
proof -
  have "game initial = (Finite 100, [])"
    by (simp add: game_def initial_def)
  moreover
  have "game_ok (setFormDisabled True initial)"
    using initial_game_ok by (simp add: game_ok_def setFormDisabled_def)
  then have "game_ok (snd (startGame r0 initial))"
    unfolding startGame_def by (rule respond_game_ok)
  then have "game_ok (play r0 turns)"
    unfolding play_def by (rule submissions_game_ok)
  moreover have "snd (parseAndUpdateState text s) = s" if "\<not> has_complete_marker text"
  proof -
    from that have "exec statusRegex [] text = None"
      using exec_statusRegex_iff [of "text"] by blast
    then show ?thesis by (simp add: parse_no_match)
  qed
  ultimately show ?thesis by blast
qed

theorem game_state_invariant_witness:
  "game_ok (play (Stream [js ''You wake.[STATUS]HEALTH:80,INVENTORY:torch[/STATUS]''] Done)
              [(js ''look'', Stream [js ''A shadow looms.\<newline>[STATUS]HEALTH:5''] Done)])
   \<and> snd (parseAndUpdateState (js ''A shadow looms.\<newline>[STATUS]HEALTH:5'') initial) = initial"
proof -
  have "exec statusRegex [] (js ''A shadow looms.\<newline>[STATUS]HEALTH:5'') = None"
    by (simp add: pattern_eval)
  then have "\<not> has_complete_marker (js ''A shadow looms.\<newline>[STATUS]HEALTH:5'')"
    using exec_statusRegex_iff [of "js ''A shadow looms.\<newline>[STATUS]HEALTH:5''"] by blast
  with game_state_invariant
         [of "Stream [js ''You wake.[STATUS]HEALTH:80,INVENTORY:torch[/STATUS]''] Done"
             "[(js ''look'', Stream [js ''A shadow looms.\<newline>[STATUS]HEALTH:5''] Done)]"
             "js ''A shadow looms.\<newline>[STATUS]HEALTH:5''" initial]
  show ?thesis by blast
qed

subsection \<open>C10\<close>

text \<open>
  C10. Whenever the pattern of \<^verbatim>\<open>parseAndUpdateState\<close> matches, its first capture
  is one or more decimal digits, \<^verbatim>\<open>parseInt\<close> of it is not NaN, so the branch
  that keeps the old health is never taken: the health becomes the parsed number
  and the inventory the parsed items.
\<close>

theorem matched_health_is_never_NaN:
  assumes "exec statusRegex [] text = Some (bef, m1, m2, after)"
  shows "m1 \<noteq> [] \<and> list_all isDigit m1 \<and> \<not> isNaN (parseInt m1)
         \<and> game (snd (parseAndUpdateState text s)) = (parseInt m1, inventoryItems m2)"
proof -
  from exec_statusRegex_SomeD [OF assms] have d: "m1 \<noteq> []" "list_all isDigit m1"
    by simp_all
  from parseInt_match_not_NaN [OF d] have "\<not> isNaN (parseInt m1)"
    by (simp add: isNaN_def)
  with d show ?thesis
    by (simp add: parse_match [OF assms] game_def)
qed

theorem matched_health_is_never_NaN_witness:
  "js ''80'' \<noteq> [] \<and> list_all isDigit (js ''80'') \<and> \<not> isNaN (parseInt (js ''80''))
   \<and> game (snd (parseAndUpdateState
                   (js ''Ouch.[STATUS]HEALTH:80,INVENTORY:torch,rusty key[/STATUS]'') initial))
       = (parseInt (js ''80''), inventoryItems (js ''torch,rusty key''))"
proof -
  have m: "exec statusRegex [] (js ''Ouch.[STATUS]HEALTH:80,INVENTORY:torch,rusty key[/STATUS]'')
           = Some (js ''Ouch.'', js ''80'', js ''torch,rusty key'', [])"
    by (simp add: pattern_eval)
  show ?thesis
    by (rule matched_health_is_never_NaN [OF m])
qed

end
